theory Spec2Isabelle
  imports Complex_Main
begin

section \<open>KRONOS: animation and reveal orchestration of \<open>src/App.tsx\<close>\<close>

text \<open>
  The components of \<open>App.tsx\<close> are React function components. Each piece of component
  state (\<open>useState\<close>) is a field of a record or an argument of a function, each event
  handler is a function from the state before the event to the state after it, and a run
  of a component is the list of events it receives.

  JavaScript numbers are IEEE 754 doubles. They are modelled as \<open>real\<close>. The hero
  parallax and the scroll progress bar compute one quotient from the current scroll
  offset; the statements about them are about the exact value of the expression that the
  source writes. The animated counter and the preloader add an increment at every tick
  and compare the sum with a target, so the rounding of each operation decides at which
  tick the target is reached: their arithmetic is rounded to the nearest double, as
  defined below. Division by zero, which yields \<open>Infinity\<close> or \<open>NaN\<close> in JavaScript and
  \<open>0\<close> in HOL, is excluded by a hypothesis wherever a divisor can be zero.
\<close>

subsection \<open>The clamp of the specification\<close>

text \<open>
  The source never defines a clamp function (it writes \<open>Math.min\<close> and \<open>Math.max\<close>
  where it bounds a value). This one follows the specification's words
  \<open>clamp(x, 0, 1)\<close> and is what the source's expressions are compared with.
\<close>

definition clamp :: "real \<Rightarrow> real \<Rightarrow> real \<Rightarrow> real" where
  "clamp x lo hi = max lo (min x hi)"

subsection \<open>HeroSection: scroll parallax (lines 1568-1586)\<close>

text \<open>
  \<^verbatim>\<open>
  const handleScroll = () => {
    if (window.scrollY < viewportHeight) { setScrollY(window.scrollY); }
  };
  const progress = Math.min(scrollY / (viewportHeight * 0.7), 1);
  const contentOpacity = 1 - progress;
  const contentTranslateY = scrollY * 0.3;
  const contentScale = 1 - progress * 0.05;
  const scrollIndicatorOpacity = Math.max(0, 1 - progress * 2);
  \<close>
  \<open>scrollY\<close> and \<open>viewportHeight\<close> are the component's two state variables; the derived
  values are recomputed from them at every render.
\<close>

definition hero_handleScroll :: "real \<Rightarrow> real \<Rightarrow> real \<Rightarrow> real" where
  "hero_handleScroll windowScrollY viewportHeight scrollY =
     (if windowScrollY < viewportHeight then windowScrollY else scrollY)"

definition hero_progress :: "real \<Rightarrow> real \<Rightarrow> real" where
  "hero_progress scrollY viewportHeight = min (scrollY / (viewportHeight * 0.7)) 1"

definition contentOpacity :: "real \<Rightarrow> real \<Rightarrow> real" where
  "contentOpacity scrollY viewportHeight = 1 - hero_progress scrollY viewportHeight"

definition contentTranslateY :: "real \<Rightarrow> real" where
  "contentTranslateY scrollY = scrollY * 0.3"

definition contentScale :: "real \<Rightarrow> real \<Rightarrow> real" where
  "contentScale scrollY viewportHeight = 1 - hero_progress scrollY viewportHeight * 0.05"

definition scrollIndicatorOpacity :: "real \<Rightarrow> real \<Rightarrow> real" where
  "scrollIndicatorOpacity scrollY viewportHeight =
     max 0 (1 - hero_progress scrollY viewportHeight * 2)"

subsection \<open>ScrollProgressBar (lines 853-881)\<close>

text \<open>
  \<^verbatim>\<open>
  const updateProgress = () => {
    const scrollHeight = document.documentElement.scrollHeight - window.innerHeight;
    const scrolled = window.scrollY;
    const newProgress = scrollHeight > 0 ? (scrolled / scrollHeight) * 100 : 0;
    setProgress(newProgress);
  };
  ...
  transform: `scaleX(${progress / 100})`,
  opacity: progress > 0 ? 1 : 0,
  \<close>
  The state \<open>progress\<close> is a percentage; the fraction that the bar is scaled by is
  \<open>progress / 100\<close>.
\<close>

definition updateProgress :: "real \<Rightarrow> real \<Rightarrow> real \<Rightarrow> real" where
  "updateProgress documentHeight innerHeight scrolled =
     (let scrollHeight = documentHeight - innerHeight
      in if scrollHeight > 0 then (scrolled / scrollHeight) * 100 else 0)"

definition bar_scaleX :: "real \<Rightarrow> real" where
  "bar_scaleX progress = progress / 100"

definition bar_opacity :: "real \<Rightarrow> real" where
  "bar_opacity progress = (if progress > 0 then 1 else 0)"

subsection \<open>Double arithmetic\<close>

text \<open>
  A finite double is a real \<open>m * 2 powi e\<close> with an integer \<open>m\<close> of magnitude below
  \<open>2 ^ 53\<close> and \<open>- 1074 \<le> e \<le> 971\<close>. \<open>binade x\<close> is the exponent \<open>b\<close> with
  \<open>2 powi b \<le> \<bar>x\<bar> < 2 powi (b + 1)\<close>, found by a search that is bounded by the
  exponent range of the format: it stops at 1023, and at \<open>- 1022\<close> for the subnormal
  numbers and zero. \<open>ulp x\<close> is the distance between two neighbouring doubles of that
  binade, and \<open>double_round x\<close> is the multiple of \<open>ulp x\<close> nearest to \<open>x\<close>, a tie going
  to the even multiple: the rounding of every arithmetic operation of JavaScript.
  \<open>dadd\<close>, \<open>dsub\<close> and \<open>ddiv\<close> are the operations \<^verbatim>\<open>+\<close>, \<^verbatim>\<open>-\<close> and \<^verbatim>\<open>/\<close> on doubles.
  A result of magnitude \<open>2 powi 1024\<close> or more, where JavaScript yields \<open>Infinity\<close>, is
  not modelled; the statements below keep the operands away from it.
\<close>

primrec binade_up :: "nat \<Rightarrow> real \<Rightarrow> int \<Rightarrow> int" where
  "binade_up 0 x k = k"
| "binade_up (Suc n) x k = (if x < 2 powi (k + 1) then k else binade_up n x (k + 1))"

primrec binade_down :: "nat \<Rightarrow> real \<Rightarrow> int \<Rightarrow> int" where
  "binade_down 0 x k = k"
| "binade_down (Suc n) x k = (if 2 powi (k - 1) \<le> x then k - 1 else binade_down n x (k - 1))"

definition binade :: "real \<Rightarrow> int" where
  "binade x = (if 1 \<le> \<bar>x\<bar> then binade_up 1023 \<bar>x\<bar> 0 else binade_down 1022 \<bar>x\<bar> 0)"

definition ulp :: "real \<Rightarrow> real" where
  "ulp x = 2 powi (binade x - 52)"

definition round_half_even :: "real \<Rightarrow> int" where
  "round_half_even y =
     (let f = \<lfloor>y\<rfloor>; r = y - of_int f
      in if r < 1 / 2 then f else if 1 / 2 < r then f + 1 else if even f then f else f + 1)"

definition double_round :: "real \<Rightarrow> real" where
  "double_round x = of_int (round_half_even (x / ulp x)) * ulp x"

definition dadd :: "real \<Rightarrow> real \<Rightarrow> real" where
  "dadd x y = double_round (x + y)"

definition dsub :: "real \<Rightarrow> real \<Rightarrow> real" where
  "dsub x y = double_round (x - y)"

definition ddiv :: "real \<Rightarrow> real \<Rightarrow> real" where
  "ddiv x y = double_round (x / y)"

subsection \<open>AnimatedCounter (lines 235-270)\<close>

text \<open>
  \<^verbatim>\<open>
  const [count, setCount] = useState(0);
  const animationConfig = useMemo(() => ({
    steps: 60, increment: value / 60, intervalMs: 30,
  }), [value]);
  useEffect(() => {
    if (!isInView) return;
    let current = 0;
    const interval = setInterval(() => {
      current += animationConfig.increment;
      if (current >= value) {
        setCount(value);
        clearInterval(interval);
      } else {
        setCount(Math.floor(current));
      }
    }, animationConfig.intervalMs);
    return () => clearInterval(interval);
  }, [isInView, value, animationConfig]);
  \<close>
  \<open>counter_start\<close> is the state when the effect has run with \<open>isInView\<close> true (the
  trigger has fired): \<open>current\<close> is 0, the displayed \<open>count\<close> is still its initial 0
  and the interval is set. \<open>counter_tick\<close> is one call of the interval's callback, 30 ms
  after the previous one; a cleared interval calls nothing. \<open>counter_run v n\<close> is the
  state after \<open>n\<close> periods of 30 ms. The increment \<open>value / 60\<close> and every sum
  \<open>current += increment\<close> are rounded to a double; \<open>Math.floor\<close> of a double is exact.
\<close>

record counter =
  current :: real
  count :: real
  interval_active :: bool

definition counter_start :: counter where
  "counter_start = \<lparr>current = 0, count = 0, interval_active = True\<rparr>"

definition counter_tick :: "real \<Rightarrow> counter \<Rightarrow> counter" where
  "counter_tick v c =
     (if \<not> interval_active c then c
      else
        (let current' = dadd (current c) (ddiv v 60)
         in if current' \<ge> v
            then c\<lparr>current := current', count := v, interval_active := False\<rparr>
            else c\<lparr>current := current', count := of_int \<lfloor>current'\<rfloor>\<rparr>))"

definition counter_run :: "real \<Rightarrow> nat \<Rightarrow> counter" where
  "counter_run v n = (counter_tick v ^^ n) counter_start"

subsection \<open>Navigation (lines 1036-1196) and SearchOverlay (lines 887-913)\<close>

text \<open>
  The state of \<open>Navigation\<close> is its six \<open>useState\<close> cells. \<open>bodyOverflow\<close> is
  \<open>document.body.style.overflow\<close>, the one piece of the DOM that the effects of
  \<open>Navigation\<close> and of its child \<open>SearchOverlay\<close> both write.
\<close>

record nav =
  mobileOpen :: bool
  megaMenuOpen :: bool
  searchOpen :: bool
  activeSection :: string
  hideNav :: bool
  lastScrollY :: real
  bodyOverflow :: string

definition nav_init :: nav where
  "nav_init = \<lparr>mobileOpen = False, megaMenuOpen = False, searchOpen = False,
     activeSection = [], hideNav = False, lastScrollY = 0, bodyOverflow = []\<rparr>"

text \<open>
  \<^verbatim>\<open>
  const handleScroll = () => {
    const currentScrollY = window.scrollY;
    if (currentScrollY > 500) {
      if (currentScrollY > lastScrollY && currentScrollY - lastScrollY > 10) {
        setHideNav(true);
      } else if (lastScrollY - currentScrollY > 10) {
        setHideNav(false);
      }
    } else {
      setHideNav(false);
    }
    setLastScrollY(currentScrollY);
  };
  \<close>
  The effect that registers the handler depends on \<open>lastScrollY\<close>, so the handler of
  each scroll event reads the offset stored by the previous one.
\<close>

definition nav_handleScroll :: "real \<Rightarrow> nav \<Rightarrow> nav" where
  "nav_handleScroll currentScrollY s =
     (let s1 =
        (if currentScrollY > 500 then
           (if currentScrollY > lastScrollY s \<and> currentScrollY - lastScrollY s > 10
            then s\<lparr>hideNav := True\<rparr>
            else if lastScrollY s - currentScrollY > 10
            then s\<lparr>hideNav := False\<rparr>
            else s)
         else s\<lparr>hideNav := False\<rparr>)
      in s1\<lparr>lastScrollY := currentScrollY\<rparr>)"

text \<open>
  The events that change the state of \<open>Navigation\<close>:
  \<^item> \<open>Scroll y\<close>: a scroll event at \<open>window.scrollY = y\<close>;
  \<^item> \<open>HamburgerClick\<close>: \<open>setMobileOpen(!mobileOpen)\<close> (line 1379);
  \<^item> \<open>MobileLinkClick\<close>: \<open>setMobileOpen(false)\<close> (line 1453);
  \<^item> \<open>SearchButtonClick\<close>: \<open>setSearchOpen(true)\<close> (line 1351);
  \<^item> \<open>SearchClose\<close>: the overlay's \<open>onClose\<close>, \<open>setSearchOpen(false)\<close> (line 1500);
  \<^item> \<open>KeyEscape\<close>: a keydown of Escape, received by the listeners that are registered:
    the one of \<open>MegaMenu\<close> while \<open>megaMenuOpen\<close> (its \<open>onClose\<close>), the one of
    \<open>SearchOverlay\<close> while \<open>searchOpen\<close> (its \<open>onClose\<close>), the one of \<open>Navigation\<close>
    while \<open>mobileOpen\<close> (\<open>setMobileOpen(false); setMegaMenuOpen(false)\<close>);
  \<^item> \<open>SetMegaMenu b\<close>: a hover timer fires \<open>setMegaMenuOpen(b)\<close>;
  \<^item> \<open>SetActiveSection i\<close>: the intersection observer calls \<open>setActiveSection(i)\<close>;
  \<^item> \<open>ParentRender\<close>: \<open>App\<close> renders \<open>Navigation\<close> again (its \<open>scrolled\<close> prop).
\<close>

datatype nav_event =
    Scroll real
  | HamburgerClick
  | MobileLinkClick
  | SearchButtonClick
  | SearchClose
  | KeyEscape
  | SetMegaMenu bool
  | SetActiveSection string
  | ParentRender

fun nav_handler :: "nav_event \<Rightarrow> nav \<Rightarrow> nav" where
  "nav_handler (Scroll y) s = nav_handleScroll y s"
| "nav_handler HamburgerClick s = s\<lparr>mobileOpen := \<not> mobileOpen s\<rparr>"
| "nav_handler MobileLinkClick s = s\<lparr>mobileOpen := False\<rparr>"
| "nav_handler SearchButtonClick s = s\<lparr>searchOpen := True\<rparr>"
| "nav_handler SearchClose s = s\<lparr>searchOpen := False\<rparr>"
| "nav_handler KeyEscape s =
     (let s1 = (if megaMenuOpen s then s\<lparr>megaMenuOpen := False\<rparr> else s);
          s2 = (if searchOpen s then s1\<lparr>searchOpen := False\<rparr> else s1)
      in if mobileOpen s then s2\<lparr>mobileOpen := False, megaMenuOpen := False\<rparr> else s2)"
| "nav_handler (SetMegaMenu b) s = s\<lparr>megaMenuOpen := b\<rparr>"
| "nav_handler (SetActiveSection i) s = s\<lparr>activeSection := i\<rparr>"
| "nav_handler ParentRender s = s"

text \<open>
  The two effects that lock body scroll.
  \<^verbatim>\<open>
  // SearchOverlay, lines 899-913         // Navigation, lines 1094-1142
  useEffect(() => {                       useEffect(() => {
    ...                                     ...
    if (isOpen) {                           if (mobileOpen) {
      ...                                     ...
      document.body.style.overflow            document.body.style.overflow
        = 'hidden';                             = 'hidden';
    } else {                                  ...
      document.body.style.overflow = '';    } else {
    }                                         document.body.style.overflow = '';
    return () => {                          }
      ...                                   return () => {
      document.body.style.overflow = '';      ...
    };                                        document.body.style.overflow = '';
  }, [isOpen, onClose]);                    };
                                          }, [mobileOpen]);
  \<close>
  Each function below takes the overflow before and returns the overflow after.
\<close>

definition search_effect_cleanup :: "string \<Rightarrow> string" where
  "search_effect_cleanup overflow = []"

definition search_effect_body :: "bool \<Rightarrow> string \<Rightarrow> string" where
  "search_effect_body isOpen overflow = (if isOpen then ''hidden'' else [])"

definition nav_effect_cleanup :: "string \<Rightarrow> string" where
  "nav_effect_cleanup overflow = []"

definition nav_effect_body :: "bool \<Rightarrow> string \<Rightarrow> string" where
  "nav_effect_body isMobileOpen overflow = (if isMobileOpen then ''hidden'' else [])"

text \<open>
  React renders \<open>Navigation\<close> again when a state cell received a different value or when
  its parent rendered. After a render it re-runs every effect one of whose dependencies
  changed: first the cleanup functions of all those effects, then their bodies, each time
  the child (\<open>SearchOverlay\<close>) before the parent (\<open>Navigation\<close>). The dependency
  \<open>onClose\<close> of the overlay's effect is the arrow function
  \<open>() => setSearchOpen(false)\<close> that \<open>Navigation\<close> creates at each render (line 1500), a
  new value every time, so the overlay's effect re-runs after every render of
  \<open>Navigation\<close>; the effect of \<open>Navigation\<close> re-runs when \<open>mobileOpen\<close> changed.
\<close>

definition nav_state_changed :: "nav \<Rightarrow> nav \<Rightarrow> bool" where
  "nav_state_changed old new =
     (mobileOpen new \<noteq> mobileOpen old \<or> megaMenuOpen new \<noteq> megaMenuOpen old \<or>
      searchOpen new \<noteq> searchOpen old \<or> activeSection new \<noteq> activeSection old \<or>
      hideNav new \<noteq> hideNav old \<or> lastScrollY new \<noteq> lastScrollY old)"

definition nav_commit :: "bool \<Rightarrow> nav \<Rightarrow> nav \<Rightarrow> nav" where
  "nav_commit parentRendered old new =
     (if parentRendered \<or> nav_state_changed old new then
        (let mobileChanged = (mobileOpen new \<noteq> mobileOpen old);
             b1 = search_effect_cleanup (bodyOverflow new);
             b2 = (if mobileChanged then nav_effect_cleanup b1 else b1);
             b3 = search_effect_body (searchOpen new) b2;
             b4 = (if mobileChanged then nav_effect_body (mobileOpen new) b3 else b3)
         in new\<lparr>bodyOverflow := b4\<rparr>)
      else new)"

definition nav_step :: "nav_event \<Rightarrow> nav \<Rightarrow> nav" where
  "nav_step e s = nav_commit (e = ParentRender) s (nav_handler e s)"

definition nav_run :: "nav_event list \<Rightarrow> nav \<Rightarrow> nav" where
  "nav_run es s = foldl (\<lambda>s e. nav_step e s) s es"

text \<open>
  The class of the header (lines 1189-1191):
  \<^verbatim>\<open>
  ${hideNav && !mobileOpen ? '-translate-y-full' : 'translate-y-0'}
  \<close>
\<close>

definition header_translate :: "nav \<Rightarrow> string" where
  "header_translate s =
     (if hideNav s \<and> \<not> mobileOpen s then ''-translate-y-full'' else ''translate-y-0'')"

definition body_locked :: "nav \<Rightarrow> bool" where
  "body_locked s = (bodyOverflow s = ''hidden'')"

subsection \<open>Preloader (lines 390-471) inside App (lines 2424-2438)\<close>

text \<open>
  The preloader is driven by timers only. Time is counted in whole milliseconds since the
  component was mounted (a browser timer takes its delay as a whole number of milliseconds).
  The state holds the four \<open>useState\<close> cells of \<open>Preloader\<close>, the two variables
  \<open>currentStage\<close> and \<open>currentProgress\<close> that the closures of the loading effect share,
  one field for every timer the source sets (the time at which it is due, with what its
  callback has captured), the state \<open>loaded\<close> of \<open>App\<close>, and the times at which
  \<open>onComplete\<close> has been called:
  \<^item> \<open>skipTimer\<close>: \<open>setTimeout(() => setShowSkip(true), 2000)\<close>, line 398;
  \<^item> \<open>timeoutFallback\<close>: the 10000 ms timer of lines 404-409; its callback reads the
    \<open>phase\<close> of the render that set it;
  \<^item> \<open>startTimer\<close>: \<open>setTimeout(runStage, 300)\<close>, line 458;
  \<^item> \<open>interval\<close>: the \<open>setInterval\<close> of lines 443-454, with the \<open>stage.target\<close> and the
    \<open>increment\<close> it has captured;
  \<^item> \<open>stageTimer\<close>: \<open>setTimeout(runStage, 50 + Math.random() * 100)\<close>, line 450;
  \<^item> \<open>assetsTimer\<close>: \<open>setTimeout(() => setAssetsReady(true), 400)\<close>, line 436;
  \<^item> \<open>exitTimer\<close>: the 600 ms timer of lines 465-468;
  \<^item> \<open>completeTimers\<close>: the pending \<open>setTimeout(onComplete, 300)\<close> and
    \<open>setTimeout(onComplete, 800)\<close> of lines 407, 416 and 467, which no cleanup cancels;
  \<^item> \<open>unmountTimer\<close>: the end of the exit animation, when React unmounts the component.
\<close>

datatype phase = Loading | Complete | Exit

record preloader =
  now :: nat
  mounted :: bool
  loaded :: bool
  progress :: real
  phase :: phase
  assetsReady :: bool
  showSkip :: bool
  currentStage :: nat
  currentProgress :: real
  skipTimer :: "nat option"
  timeoutFallback :: "(nat \<times> phase) option"
  startTimer :: "nat option"
  interval :: "(nat \<times> real \<times> real) option"
  stageTimer :: "nat option"
  assetsTimer :: "nat option"
  exitTimer :: "nat option"
  completeTimers :: "nat list"
  unmountTimer :: "nat option"
  completions :: "nat list"

text \<open>
  \<^verbatim>\<open>
  const stages = [
    { target: 15, duration: 200 },   { target: 35, duration: 400 },
    { target: 55, duration: 300 },   { target: 75, duration: 500 },
    { target: 90, duration: 400 },   { target: 100, duration: 200 },
  ];
  \<close>
\<close>

definition stages :: "(real \<times> real) list" where
  "stages = [(15, 200), (35, 400), (55, 300), (75, 500), (90, 400), (100, 200)]"

text \<open>
  The state after the first render and its four effects: the skip timer, the fallback
  timer (set in a render whose \<open>phase\<close> is \<open>'loading'\<close>) and the start timer are pending;
  the exit effect finds \<open>assetsReady\<close> false and sets nothing.
\<close>

definition mount :: preloader where
  "mount = \<lparr>now = 0, mounted = True, loaded = False, progress = 0, phase = Loading,
     assetsReady = False, showSkip = False, currentStage = 0, currentProgress = 0,
     skipTimer = Some 2000, timeoutFallback = Some (10000, Loading), startTimer = Some 300,
     interval = None, stageTimer = None, assetsTimer = None, exitTimer = None,
     completeTimers = [], unmountTimer = None, completions = []\<rparr>"

text \<open>
  State setters. React ignores an update of an unmounted component and does not render
  again when a cell receives the value it already holds. A render after which a
  dependency of an effect has changed runs the cleanup of that effect and then its body:
  \<^verbatim>\<open>
  useEffect(() => {
    const timeoutFallback = setTimeout(() => {
      if (phase !== 'exit') { setPhase('exit'); setTimeout(onComplete, 300); }
    }, 10000);
    return () => clearTimeout(timeoutFallback);
  }, [onComplete, phase]);
  \<close>
  so every change of \<open>phase\<close> clears the pending fallback timer and sets a new one, due
  10000 ms later, whose callback sees the new phase;
  \<^verbatim>\<open>
  useEffect(() => {
    if (assetsReady) {
      const exitTimer = setTimeout(() => {
        setPhase('exit'); setTimeout(onComplete, 800);
      }, 600);
      return () => clearTimeout(exitTimer);
    }
  }, [assetsReady, onComplete]);
  \<close>
  so the change of \<open>assetsReady\<close> to true sets the exit timer. Renders and effects are
  taken to happen at the moment of the update that causes them.
\<close>

definition setPhase :: "phase \<Rightarrow> preloader \<Rightarrow> preloader" where
  "setPhase p s =
     (if mounted s \<and> phase s \<noteq> p
      then s\<lparr>phase := p, timeoutFallback := Some (now s + 10000, p)\<rparr>
      else s)"

definition setAssetsReady :: "preloader \<Rightarrow> preloader" where
  "setAssetsReady s =
     (if mounted s \<and> \<not> assetsReady s
      then s\<lparr>assetsReady := True, exitTimer := Some (now s + 600)\<rparr>
      else s)"

definition setProgress :: "real \<Rightarrow> preloader \<Rightarrow> preloader" where
  "setProgress v s = (if mounted s then s\<lparr>progress := v\<rparr> else s)"

definition setShowSkip :: "preloader \<Rightarrow> preloader" where
  "setShowSkip s = (if mounted s then s\<lparr>showSkip := True\<rparr> else s)"

text \<open>
  The callback that \<open>App\<close> passes and what follows from it:
  \<^verbatim>\<open>
  <AnimatePresence>
    {!loaded && <Preloader onComplete={() => setLoaded(true)} />}
  </AnimatePresence>
  \<close>
  Every call is recorded in \<open>completions\<close>. The first one sets \<open>loaded\<close>; the preloader
  then plays its exit transition (\<open>exit={{ opacity: 0 }}\<close>, \<open>duration: 0.5\<close>, lines
  479-480) and is unmounted when it ends, 500 ms later. Unmounting runs the cleanups of
  the effects: it clears the skip timer, the fallback timer, the start timer and the exit
  timer, and nothing else.
\<close>

definition onComplete :: "preloader \<Rightarrow> preloader" where
  "onComplete s =
     (let s1 = s\<lparr>completions := completions s @ [now s]\<rparr>
      in if loaded s1 then s1 else s1\<lparr>loaded := True, unmountTimer := Some (now s + 500)\<rparr>)"

definition unmount :: "preloader \<Rightarrow> preloader" where
  "unmount s =
     s\<lparr>mounted := False, skipTimer := None, timeoutFallback := None, startTimer := None,
       exitTimer := None\<rparr>"

text \<open>
  \<^verbatim>\<open>
  const runStage = () => {
    if (currentStage >= stages.length) {
      setPhase('complete');
      setTimeout(() => setAssetsReady(true), 400);
      return;
    }
    const stage = stages[currentStage];
    const increment = (stage.target - currentProgress) / (stage.duration / 16);
    const interval = setInterval(() => {
      currentProgress += increment;
      if (currentProgress >= stage.target) {
        currentProgress = stage.target;
        setProgress(stage.target);
        clearInterval(interval);
        currentStage++;
        setTimeout(runStage, 50 + Math.random() * 100);
      } else {
        setProgress(Math.floor(currentProgress));
      }
    }, 16);
  };
  \<close>
  \<open>delay k\<close> stands for the value of \<open>50 + Math.random() * 100\<close> drawn at the end of
  stage \<open>k\<close>, in milliseconds. The subtraction and the two divisions that give
  \<open>increment\<close> and the sum \<open>currentProgress += increment\<close> are operations on doubles.
\<close>

definition runStage :: "preloader \<Rightarrow> preloader" where
  "runStage s =
     (if currentStage s \<ge> length stages then
        (setPhase Complete s)\<lparr>assetsTimer := Some (now s + 400)\<rparr>
      else
        (let (target, duration) = stages ! currentStage s;
             increment = ddiv (dsub target (currentProgress s)) (ddiv duration 16)
         in s\<lparr>interval := Some (now s + 16, target, increment)\<rparr>))"

definition intervalTick :: "(nat \<Rightarrow> nat) \<Rightarrow> real \<Rightarrow> real \<Rightarrow> preloader \<Rightarrow> preloader" where
  "intervalTick delay target increment s =
     (let cp = dadd (currentProgress s) increment in
      if cp \<ge> target then
        (setProgress target (s\<lparr>currentProgress := target\<rparr>))
          \<lparr>interval := None, currentStage := currentStage s + 1,
           stageTimer := Some (now s + delay (currentStage s))\<rparr>
      else
        (setProgress (of_int \<lfloor>cp\<rfloor>) (s\<lparr>currentProgress := cp\<rparr>))
          \<lparr>interval := Some (now s + 16, target, increment)\<rparr>)"

text \<open>
  The callbacks of the fallback timer and of the exit timer, and the click handler of the
  skip button:
  \<^verbatim>\<open>
  const handleSkip = useCallback(() => {
    setPhase('exit');
    setTimeout(onComplete, 300);
  }, [onComplete]);
  \<close>
\<close>

definition fallbackFired :: "phase \<Rightarrow> preloader \<Rightarrow> preloader" where
  "fallbackFired ph s =
     (if ph \<noteq> Exit
      then (setPhase Exit s)\<lparr>completeTimers := completeTimers s @ [now s + 300]\<rparr>
      else s)"

definition exitFired :: "preloader \<Rightarrow> preloader" where
  "exitFired s = (setPhase Exit s)\<lparr>completeTimers := completeTimers s @ [now s + 800]\<rparr>"

definition handleSkip :: "preloader \<Rightarrow> preloader" where
  "handleSkip s = (setPhase Exit s)\<lparr>completeTimers := completeTimers s @ [now s + 300]\<rparr>"

text \<open>
  Firing: a timer whose time has come is removed and its callback runs. The timers due
  in the same millisecond fire in the order of the fields.
\<close>

definition fire_skipTimer :: "preloader \<Rightarrow> preloader" where
  "fire_skipTimer s =
     (case skipTimer s of
        Some due \<Rightarrow> if due \<le> now s then setShowSkip (s\<lparr>skipTimer := None\<rparr>) else s
      | None \<Rightarrow> s)"

definition fire_timeoutFallback :: "preloader \<Rightarrow> preloader" where
  "fire_timeoutFallback s =
     (case timeoutFallback s of
        Some (due, ph) \<Rightarrow>
          if due \<le> now s then fallbackFired ph (s\<lparr>timeoutFallback := None\<rparr>) else s
      | None \<Rightarrow> s)"

definition fire_startTimer :: "preloader \<Rightarrow> preloader" where
  "fire_startTimer s =
     (case startTimer s of
        Some due \<Rightarrow> if due \<le> now s then runStage (s\<lparr>startTimer := None\<rparr>) else s
      | None \<Rightarrow> s)"

definition fire_interval :: "(nat \<Rightarrow> nat) \<Rightarrow> preloader \<Rightarrow> preloader" where
  "fire_interval delay s =
     (case interval s of
        Some (due, target, increment) \<Rightarrow>
          if due \<le> now s then intervalTick delay target increment s else s
      | None \<Rightarrow> s)"

definition fire_stageTimer :: "preloader \<Rightarrow> preloader" where
  "fire_stageTimer s =
     (case stageTimer s of
        Some due \<Rightarrow> if due \<le> now s then runStage (s\<lparr>stageTimer := None\<rparr>) else s
      | None \<Rightarrow> s)"

definition fire_assetsTimer :: "preloader \<Rightarrow> preloader" where
  "fire_assetsTimer s =
     (case assetsTimer s of
        Some due \<Rightarrow> if due \<le> now s then setAssetsReady (s\<lparr>assetsTimer := None\<rparr>) else s
      | None \<Rightarrow> s)"

definition fire_exitTimer :: "preloader \<Rightarrow> preloader" where
  "fire_exitTimer s =
     (case exitTimer s of
        Some due \<Rightarrow> if due \<le> now s then exitFired (s\<lparr>exitTimer := None\<rparr>) else s
      | None \<Rightarrow> s)"

fun fire_complete :: "nat list \<Rightarrow> preloader \<Rightarrow> preloader" where
  "fire_complete [] s = s"
| "fire_complete (due # dues) s =
     (if due \<le> now s
      then fire_complete dues
             (onComplete (s\<lparr>completeTimers := remove1 due (completeTimers s)\<rparr>))
      else fire_complete dues s)"

definition fire_completeTimers :: "preloader \<Rightarrow> preloader" where
  "fire_completeTimers s = fire_complete (completeTimers s) s"

definition fire_unmountTimer :: "preloader \<Rightarrow> preloader" where
  "fire_unmountTimer s =
     (case unmountTimer s of
        Some due \<Rightarrow> if due \<le> now s then unmount (s\<lparr>unmountTimer := None\<rparr>) else s
      | None \<Rightarrow> s)"

definition fire_due :: "(nat \<Rightarrow> nat) \<Rightarrow> preloader \<Rightarrow> preloader" where
  "fire_due delay s =
     fire_unmountTimer (fire_completeTimers (fire_exitTimer (fire_assetsTimer (fire_stageTimer
       (fire_interval delay (fire_startTimer (fire_timeoutFallback (fire_skipTimer s))))))))"

text \<open>
  What reaches the preloader from outside:
  \<^item> \<open>SkipClick\<close>: a click on the skip button, which is rendered while
    \<open>showSkip && phase === 'loading'\<close> (line 680);
  \<^item> \<open>ParentRender\<close>: \<open>App\<close> renders again while \<open>loaded\<close> is false (its state
    \<open>scrolled\<close> flips when the page is scrolled across 50 px, lines 2428-2431) and passes
    a new arrow function as \<open>onComplete\<close>. Both effects that list \<open>onComplete\<close> as a
    dependency run again: the fallback timer is cleared and set anew, and so is the exit
    timer when \<open>assetsReady\<close> is true.
\<close>

datatype ext_event = SkipClick | ParentRender

fun external :: "ext_event \<Rightarrow> preloader \<Rightarrow> preloader" where
  "external SkipClick s =
     (if mounted s \<and> showSkip s \<and> phase s = Loading then handleSkip s else s)"
| "external ParentRender s =
     (if mounted s \<and> \<not> loaded s
      then s\<lparr>timeoutFallback := Some (now s + 10000, phase s),
             exitTimer := (if assetsReady s then Some (now s + 600) else exitTimer s)\<rparr>
      else s)"

text \<open>
  A run is given by the delays drawn and by the outside events with their times. One
  millisecond passes, the timers that are due fire, then the outside events of that
  millisecond happen. \<open>run delay evs t\<close> is the state \<open>t\<close> ms after the mount.
\<close>

definition externals :: "(nat \<times> ext_event) list \<Rightarrow> preloader \<Rightarrow> preloader" where
  "externals evs s = fold (\<lambda>(t, e) s. if t = now s then external e s else s) evs s"

definition step_ms :: "(nat \<Rightarrow> nat) \<Rightarrow> (nat \<times> ext_event) list \<Rightarrow> preloader \<Rightarrow> preloader" where
  "step_ms delay evs s = externals evs (fire_due delay (s\<lparr>now := now s + 1\<rparr>))"

definition advance ::
  "(nat \<Rightarrow> nat) \<Rightarrow> (nat \<times> ext_event) list \<Rightarrow> nat \<Rightarrow> preloader \<Rightarrow> preloader" where
  "advance delay evs n s = (step_ms delay evs ^^ n) s"

definition run :: "(nat \<Rightarrow> nat) \<Rightarrow> (nat \<times> ext_event) list \<Rightarrow> nat \<Rightarrow> preloader" where
  "run delay evs t = advance delay evs t mount"

text \<open>
  The times at which something is pending, and the earliest of a list of times; they
  serve to pass over the milliseconds in which nothing happens.
\<close>

definition pending :: "preloader \<Rightarrow> nat list" where
  "pending s =
     (case skipTimer s of Some due \<Rightarrow> [due] | None \<Rightarrow> []) @
     (case timeoutFallback s of Some (due, ph) \<Rightarrow> [due] | None \<Rightarrow> []) @
     (case startTimer s of Some due \<Rightarrow> [due] | None \<Rightarrow> []) @
     (case interval s of Some (due, target, increment) \<Rightarrow> [due] | None \<Rightarrow> []) @
     (case stageTimer s of Some due \<Rightarrow> [due] | None \<Rightarrow> []) @
     (case assetsTimer s of Some due \<Rightarrow> [due] | None \<Rightarrow> []) @
     (case exitTimer s of Some due \<Rightarrow> [due] | None \<Rightarrow> []) @
     completeTimers s @
     (case unmountTimer s of Some due \<Rightarrow> [due] | None \<Rightarrow> [])"

definition upcoming :: "(nat \<times> ext_event) list \<Rightarrow> preloader \<Rightarrow> nat list" where
  "upcoming evs s = pending s @ filter (\<lambda>t. now s < t) (map fst evs)"

fun least :: "nat list \<Rightarrow> nat option" where
  "least [] = None"
| "least (x # xs) = (case least xs of None \<Rightarrow> Some x | Some m \<Rightarrow> Some (min x m))"

text \<open>
  The stage table read by index: the target and the duration of stage \<open>k\<close>, the value of
  \<open>currentProgress\<close> when the stage starts (the target of the stage before it), and the
  increment \<open>(stage.target - currentProgress) / (stage.duration / 16)\<close> that \<open>runStage\<close>
  computes then. \<open>accumulate cp increment j\<close> is the value of \<open>currentProgress\<close> after
  \<open>j\<close> executions of \<open>currentProgress += increment\<close> from \<open>cp\<close>, and \<open>stage_acc k j\<close>
  is that value in stage \<open>k\<close>. \<open>ticks_until\<close> counts the calls of the interval callback
  up to and including the first one at which \<open>currentProgress >= stage.target\<close> holds
  (the search is bounded by its first argument); \<open>stage_ticks k\<close> is the number of ticks
  of stage \<open>k\<close>. \<open>stage_start delay k\<close> is the time at which stage \<open>k\<close> starts: the first
  one 300 ms after the mount, each later one \<open>delay k\<close> ms after the last tick of the
  stage before it. \<open>stage_start delay 6\<close> is the time of the call of \<open>runStage\<close> that
  finds no stage left.
\<close>

definition stage_target :: "nat \<Rightarrow> real" where
  "stage_target k = fst (stages ! k)"

definition stage_duration :: "nat \<Rightarrow> real" where
  "stage_duration k = snd (stages ! k)"

definition stage_prev :: "nat \<Rightarrow> real" where
  "stage_prev k = (if k = 0 then 0 else stage_target (k - 1))"

definition stage_increment :: "nat \<Rightarrow> real" where
  "stage_increment k =
     ddiv (dsub (stage_target k) (stage_prev k)) (ddiv (stage_duration k) 16)"

primrec accumulate :: "real \<Rightarrow> real \<Rightarrow> nat \<Rightarrow> real" where
  "accumulate cp increment 0 = cp"
| "accumulate cp increment (Suc j) = dadd (accumulate cp increment j) increment"

definition stage_acc :: "nat \<Rightarrow> nat \<Rightarrow> real" where
  "stage_acc k j = accumulate (stage_prev k) (stage_increment k) j"

primrec ticks_until :: "nat \<Rightarrow> real \<Rightarrow> real \<Rightarrow> real \<Rightarrow> nat" where
  "ticks_until 0 cp increment target = 0"
| "ticks_until (Suc fuel) cp increment target =
     (if target \<le> dadd cp increment then 1
      else Suc (ticks_until fuel (dadd cp increment) increment target))"

definition stage_ticks :: "nat \<Rightarrow> nat" where
  "stage_ticks k =
     ticks_until (nat \<lfloor>stage_duration k\<rfloor>) (stage_prev k) (stage_increment k) (stage_target k)"

primrec stage_start :: "(nat \<Rightarrow> nat) \<Rightarrow> nat \<Rightarrow> nat" where
  "stage_start delay 0 = 300"
| "stage_start delay (Suc k) = stage_start delay k + 16 * stage_ticks k + delay k"

text \<open>
  Fifteen renders of \<open>App\<close>, one every 500 ms from 3500 ms on: the page is scrolled back
  and forth across the 50 px line while the preloader is shown.
\<close>

definition app_renders :: "(nat \<times> ext_event) list" where
  "app_renders =
     [(3500, ParentRender), (4000, ParentRender), (4500, ParentRender), (5000, ParentRender),
      (5500, ParentRender), (6000, ParentRender), (6500, ParentRender), (7000, ParentRender),
      (7500, ParentRender), (8000, ParentRender), (8500, ParentRender), (9000, ParentRender),
      (9500, ParentRender), (10000, ParentRender), (10500, ParentRender)]"

text \<open>
  The states that an undisturbed run (no outside event) passes through, with the skip
  timer and \<open>showSkip\<close> left out (\<open>core\<close>): in stage \<open>k\<close> after \<open>j\<close> ticks; between two
  stages; and from the call of \<open>runStage\<close> that sets \<open>'complete'\<close> at time \<open>T\<close> to the
  unmount.
\<close>

definition core :: "preloader \<Rightarrow> preloader" where
  "core s = s\<lparr>skipTimer := None, showSkip := False\<rparr>"

definition ticking :: "nat \<Rightarrow> nat \<Rightarrow> nat \<Rightarrow> preloader" where
  "ticking T k j =
     \<lparr>now = T + 16 * j, mounted = True, loaded = False,
      progress = (if j = 0 then stage_prev k else of_int \<lfloor>stage_acc k j\<rfloor>),
      phase = Loading, assetsReady = False, showSkip = False, currentStage = k,
      currentProgress = stage_acc k j,
      skipTimer = None, timeoutFallback = Some (10000, Loading), startTimer = None,
      interval = Some (T + 16 * j + 16, stage_target k, stage_increment k),
      stageTimer = None, assetsTimer = None, exitTimer = None, completeTimers = [],
      unmountTimer = None, completions = []\<rparr>"

definition pausing :: "nat \<Rightarrow> nat \<Rightarrow> nat \<Rightarrow> preloader" where
  "pausing T k due =
     \<lparr>now = T, mounted = True, loaded = False, progress = stage_target k,
      phase = Loading, assetsReady = False, showSkip = False, currentStage = Suc k,
      currentProgress = stage_target k,
      skipTimer = None, timeoutFallback = Some (10000, Loading), startTimer = None,
      interval = None, stageTimer = Some due, assetsTimer = None, exitTimer = None,
      completeTimers = [], unmountTimer = None, completions = []\<rparr>"

definition completed :: "nat \<Rightarrow> preloader" where
  "completed T =
     \<lparr>now = T, mounted = True, loaded = False, progress = 100,
      phase = Complete, assetsReady = False, showSkip = False, currentStage = 6,
      currentProgress = 100,
      skipTimer = None, timeoutFallback = Some (T + 10000, Complete), startTimer = None,
      interval = None, stageTimer = None, assetsTimer = Some (T + 400), exitTimer = None,
      completeTimers = [], unmountTimer = None, completions = []\<rparr>"

definition assets_ready :: "nat \<Rightarrow> preloader" where
  "assets_ready T =
     (completed T)\<lparr>now := T + 400, assetsReady := True, assetsTimer := None,
       exitTimer := Some (T + 1000)\<rparr>"

definition exiting :: "nat \<Rightarrow> preloader" where
  "exiting T =
     (assets_ready T)\<lparr>now := T + 1000, phase := Exit,
       timeoutFallback := Some (T + 11000, Exit), exitTimer := None,
       completeTimers := [T + 1800]\<rparr>"

definition finished :: "nat \<Rightarrow> preloader" where
  "finished T =
     (exiting T)\<lparr>now := T + 1800, loaded := True, completeTimers := [],
       unmountTimer := Some (T + 2300), completions := [T + 1800]\<rparr>"

definition unmounted :: "nat \<Rightarrow> preloader" where
  "unmounted T =
     (finished T)\<lparr>now := T + 2300, mounted := False, timeoutFallback := None,
       unmountTimer := None\<rparr>"

subsection \<open>Visibility triggers (lines 237, 1912-1916, 2069, 2122, 2160, 2271, 2309)\<close>

text \<open>
  Modelled from the spec: the hook \<open>useInView\<close> of the library framer-motion, which
  \<open>App.tsx\<close> imports (line 4) and calls, and whose code is not among the sources. The
  specification describes it as a boolean per observed element, false at first, "set
  true exactly once the element intersects the viewport past a configured threshold;
  never reset (one-shot)", with "a configurable intersection threshold (fraction of
  element visible) and margin", and names the one-shot behaviour "\<open>once: true\<close>
  semantics". An observation is the fraction of the element that lies inside the viewport
  (shrunk by the margin). The threshold \<open>amount\<close> is a fraction, or absent (the
  library's default, any part of the element). Without \<open>once\<close> the flag follows the
  observations.
\<close>

definition crosses :: "real option \<Rightarrow> real \<Rightarrow> bool" where
  "crosses amount fraction = (case amount of Some a \<Rightarrow> a \<le> fraction | None \<Rightarrow> 0 < fraction)"

definition useInView :: "bool \<Rightarrow> real option \<Rightarrow> bool \<Rightarrow> real \<Rightarrow> bool" where
  "useInView once amount isInView fraction =
     (if once \<and> isInView then True else crosses amount fraction)"

text \<open>
  The calls in the source. Every one of the seven passes \<open>once: true\<close>;
  \<open>ManifestoSection\<close> also passes \<open>amount: 0.2\<close>, the others leave the threshold at its
  default:
  \<^verbatim>\<open>
  const isInView = useInView(sectionRef, { once: true, amount: 0.2, margin: '-100px' });
  const isInView = useInView(ref, { once: true, margin: '-80px' });
  \<close>
\<close>

definition manifesto_inView :: "bool \<Rightarrow> real \<Rightarrow> bool" where
  "manifesto_inView = useInView True (Some 0.2)"

definition divisionCard_inView :: "bool \<Rightarrow> real \<Rightarrow> bool" where
  "divisionCard_inView = useInView True None"

text \<open>
  \<open>flags hook False obs\<close> lists the values of \<open>isInView\<close> at the successive renders, one
  per observation. The element is animated by
  \<open>animate={isInView ? { opacity: 1, y: 0 } : {}}\<close> (line 2075): the reveal starts at each
  render at which \<open>isInView\<close> has turned from false to true (\<open>rises\<close>); \<open>falls\<close> counts
  the renders at which it has turned back.
\<close>

primrec flags :: "(bool \<Rightarrow> real \<Rightarrow> bool) \<Rightarrow> bool \<Rightarrow> real list \<Rightarrow> bool list" where
  "flags hook isInView [] = [isInView]"
| "flags hook isInView (x # xs) = isInView # flags hook (hook isInView x) xs"

fun rises :: "bool list \<Rightarrow> nat" where
  "rises (a # b # bs) = (if \<not> a \<and> b then 1 else 0) + rises (b # bs)"
| "rises bs = 0"

fun falls :: "bool list \<Rightarrow> nat" where
  "falls (a # b # bs) = (if a \<and> \<not> b then 1 else 0) + falls (b # bs)"
| "falls bs = 0"

section \<open>Theorems\<close>

subsection \<open>Double arithmetic\<close>

text \<open>
  Unfolding the bounded searches at a numeral lets the simplifier compute a rounded
  operation on given numbers.
\<close>

lemma binade_up_numeral:
  "binade_up (numeral n) x k =
     (if x < 2 powi (k + 1) then k else binade_up (pred_numeral n) x (k + 1))"
  by (simp add: numeral_eq_Suc)

lemma binade_down_numeral:
  "binade_down (numeral n) x k =
     (if 2 powi (k - 1) \<le> x then k - 1 else binade_down (pred_numeral n) x (k - 1))"
  by (simp add: numeral_eq_Suc)

lemmas double_eval = dadd_def dsub_def ddiv_def double_round_def ulp_def binade_def
  binade_up_numeral binade_down_numeral round_half_even_def Let_def

text \<open>
  Powers of two, the binade of a number, and the rounding function: it is monotone, it
  leaves every double as it is (a double is an integer below \<open>2 ^ 53\<close> times a power of
  two not below \<open>2 powi (- 1074)\<close>), its result is a double, and the successor
  \<open>c + ulp c\<close> of a double \<open>c\<close> is a double.
\<close>

lemma p2_pos: "0 < (2::real) powi k"
  by (simp add: zero_less_power_int)

lemma p2_le: "((2::real) powi k \<le> 2 powi l) = (k \<le> l)"
proof
  assume a: "(2::real) powi k \<le> 2 powi l"
  show "k \<le> l"
  proof (rule ccontr)
    assume "\<not> k \<le> l"
    then have "l < k" by simp
    then have "(2::real) powi l < 2 powi k" by (rule power_int_strict_increasing) simp
    with a show False by simp
  qed
next
  assume "k \<le> l"
  then show "(2::real) powi k \<le> 2 powi l" by (rule power_int_increasing) simp
qed

lemma p2_less: "((2::real) powi k < 2 powi l) = (k < l)"
  using p2_le [of l k] by (simp add: not_le [symmetric])

lemma p2_add: "(2::real) powi (k + l) = 2 powi k * 2 powi l"
  by (simp add: power_int_add)

lemma p2_diff: "(2::real) powi (k - l) = 2 powi k / 2 powi l"
  by (simp add: power_int_diff)

lemma p2_nat: "0 \<le> k \<Longrightarrow> (2::real) powi k = of_int (2 ^ nat k)"
  by (simp add: power_int_def)

lemma p2_split53: "(2::real) powi (b + 1) = of_int (2 ^ 53) * 2 powi (b - 52)"
proof -
  have "b + 1 = 53 + (b - 52)" by simp
  then have "(2::real) powi (b + 1) = 2 powi (53 + (b - 52))" by (rule arg_cong)
  also have "\<dots> = 2 powi 53 * 2 powi (b - 52)" by (rule p2_add)
  finally show ?thesis by (simp add: power_int_numeral)
qed

lemma p2_split52: "(2::real) powi b = of_int (2 ^ 52) * 2 powi (b - 52)"
proof -
  have "b = 52 + (b - 52)" by simp
  then have "(2::real) powi b = 2 powi (52 + (b - 52))" by (rule arg_cong)
  also have "\<dots> = 2 powi 52 * 2 powi (b - 52)" by (rule p2_add)
  finally show ?thesis by (simp add: power_int_numeral)
qed

lemma binade_up_bounds: "k \<le> binade_up n x k \<and> binade_up n x k \<le> k + int n"
proof (induction n arbitrary: k)
  case 0
  show ?case by simp
next
  case (Suc n)
  show ?case using Suc [of "k + 1"] by auto
qed

lemma binade_up_spec:
  "2 powi k \<le> x \<Longrightarrow> x < 2 powi (k + int n + 1) \<Longrightarrow>
   2 powi (binade_up n x k) \<le> x \<and> x < 2 powi (binade_up n x k + 1)"
proof (induction n arbitrary: k)
  case 0
  then show ?case by simp
next
  case (Suc n)
  show ?case
  proof (cases "x < 2 powi (k + 1)")
    case True
    with Suc.prems show ?thesis by simp
  next
    case False
    have "x < 2 powi (k + 1 + int n + 1)"
      using Suc.prems(2) by (simp add: algebra_simps)
    with False Suc.IH [of "k + 1"] show ?thesis by simp
  qed
qed

lemma binade_down_bounds: "k - int n \<le> binade_down n x k \<and> binade_down n x k \<le> k"
proof (induction n arbitrary: k)
  case 0
  show ?case by simp
next
  case (Suc n)
  show ?case using Suc [of "k - 1"] by auto
qed

lemma binade_down_spec:
  "x < 2 powi k \<Longrightarrow> 2 powi (k - int n) \<le> x \<Longrightarrow>
   2 powi (binade_down n x k) \<le> x \<and> x < 2 powi (binade_down n x k + 1)"
proof (induction n arbitrary: k)
  case 0
  then show ?case by simp
next
  case (Suc n)
  show ?case
  proof (cases "2 powi (k - 1) \<le> x")
    case True
    with Suc.prems show ?thesis by simp
  next
    case False
    have "2 powi (k - 1 - int n) \<le> x"
      using Suc.prems(2) by (simp add: algebra_simps)
    with False Suc.IH [of "k - 1"] show ?thesis by simp
  qed
qed

lemma binade_down_clamp: "x < 2 powi (k - int n) \<Longrightarrow> binade_down n x k = k - int n"
proof (induction n arbitrary: k)
  case 0
  show ?case by simp
next
  case (Suc n)
  have lt: "x < 2 powi (k - 1 - int n)"
    using Suc.prems by (simp add: algebra_simps)
  have "(2::real) powi (k - 1 - int n) \<le> 2 powi (k - 1)"
    by (simp add: p2_le)
  with lt have "\<not> 2 powi (k - 1) \<le> x" by simp
  with Suc.IH [OF lt] show ?case by simp
qed

declare power_int_numeral [simp del] power_int_numeral_neg_numeral [simp del]

lemma binade_range: "- 1022 \<le> binade x \<and> binade x \<le> 1023"
  using binade_up_bounds [of 0 1023 "\<bar>x\<bar>"] binade_down_bounds [of 0 1022 "\<bar>x\<bar>"]
  by (simp add: binade_def)

lemma binade_normal:
  assumes "2 powi (- 1022) \<le> \<bar>x\<bar>" and "\<bar>x\<bar> < 2 powi 1024"
  shows "2 powi binade x \<le> \<bar>x\<bar> \<and> \<bar>x\<bar> < 2 powi (binade x + 1)"
proof (cases "1 \<le> \<bar>x\<bar>")
  case True
  then show ?thesis
    using binade_up_spec [of 0 "\<bar>x\<bar>" 1023] assms(2) by (simp add: binade_def)
next
  case False
  then show ?thesis
    using binade_down_spec [of "\<bar>x\<bar>" 0 1022] assms(1) by (simp add: binade_def)
qed

lemma binade_subnormal:
  assumes "\<bar>x\<bar> < 2 powi (- 1022)"
  shows "binade x = - 1022"
proof -
  have "(2::real) powi (- 1022) \<le> 2 powi 0" by (simp only: p2_le)
  with assms have "\<not> 1 \<le> \<bar>x\<bar>" by simp
  then show ?thesis
    using binade_down_clamp [of "\<bar>x\<bar>" 0 1022] assms by (simp add: binade_def)
qed

lemma binade_upper:
  assumes "\<bar>x\<bar> < 2 powi 1024"
  shows "\<bar>x\<bar> < 2 powi (binade x + 1)"
proof (cases "2 powi (- 1022) \<le> \<bar>x\<bar>")
  case True
  with assms show ?thesis using binade_normal by simp
next
  case False
  then have lt: "\<bar>x\<bar> < 2 powi (- 1022)" by simp
  have "(2::real) powi (- 1022) \<le> 2 powi (- 1022 + 1)" by (simp only: p2_le)
  with lt show ?thesis by (simp add: binade_subnormal)
qed

lemma binade_lower:
  assumes "- 1022 < binade x" and "\<bar>x\<bar> < 2 powi 1024"
  shows "2 powi binade x \<le> \<bar>x\<bar>"
proof -
  have "2 powi (- 1022) \<le> \<bar>x\<bar>"
    using assms(1) binade_subnormal [of x] by fastforce
  with assms(2) show ?thesis using binade_normal by simp
qed

lemma binade_mono:
  assumes "\<bar>x\<bar> \<le> \<bar>y\<bar>" and "\<bar>y\<bar> < 2 powi 1024"
  shows "binade x \<le> binade y"
proof (rule ccontr)
  assume "\<not> binade x \<le> binade y"
  then have lt: "binade y < binade x" by simp
  with binade_range [of y] have "- 1022 < binade x" by simp
  then have "2 powi binade x \<le> \<bar>x\<bar>" using assms by (intro binade_lower) simp_all
  moreover have "(2::real) powi (binade y + 1) \<le> 2 powi binade x"
    using lt by (simp add: p2_le)
  moreover have "\<bar>y\<bar> < 2 powi (binade y + 1)" using assms(2) by (rule binade_upper)
  ultimately show False using assms(1) by simp
qed

lemma ulp_pos: "0 < ulp x"
  by (simp add: ulp_def p2_pos)

lemma ulp_ge: "2 powi (- 1074) \<le> ulp x"
  using binade_range [of x] by (simp add: ulp_def p2_le)

lemma rhe_cases: "round_half_even y = \<lfloor>y\<rfloor> \<or> round_half_even y = \<lfloor>y\<rfloor> + 1"
  by (simp add: round_half_even_def Let_def)

lemma rhe_of_int: "round_half_even (of_int n) = n"
  by (simp add: round_half_even_def)

lemma rhe_mono:
  assumes "y \<le> z"
  shows "round_half_even y \<le> round_half_even z"
proof (cases "\<lfloor>y\<rfloor> = \<lfloor>z\<rfloor>")
  case True
  with assms show ?thesis by (auto simp: round_half_even_def Let_def)
next
  case False
  moreover have "\<lfloor>y\<rfloor> \<le> \<lfloor>z\<rfloor>" using assms by (rule floor_mono)
  ultimately have "\<lfloor>y\<rfloor> + 1 \<le> \<lfloor>z\<rfloor>" by simp
  moreover have "round_half_even y \<le> \<lfloor>y\<rfloor> + 1" using rhe_cases [of y] by auto
  moreover have "\<lfloor>z\<rfloor> \<le> round_half_even z" using rhe_cases [of z] by auto
  ultimately show ?thesis by linarith
qed

lemma rhe_ge: "of_int n \<le> y \<Longrightarrow> n \<le> round_half_even y"
  using rhe_mono [of "of_int n" y] by (simp add: rhe_of_int)

lemma rhe_le: "y \<le> of_int n \<Longrightarrow> round_half_even y \<le> n"
  using rhe_mono [of y "of_int n"] by (simp add: rhe_of_int)

lemma double_round_0: "double_round 0 = 0"
  by (simp add: double_round_def rhe_of_int [of 0, simplified])

lemma double_round_nonneg:
  assumes "0 \<le> x"
  shows "0 \<le> double_round x"
proof -
  have "of_int 0 \<le> x / ulp x" using assms ulp_pos [of x] by simp
  then have "0 \<le> round_half_even (x / ulp x)" by (rule rhe_ge)
  then show ?thesis using ulp_pos [of x] by (simp add: double_round_def)
qed

lemma double_round_significand:
  assumes "0 \<le> x" and "x < 2 powi 1024"
  shows "0 \<le> round_half_even (x / ulp x) \<and> round_half_even (x / ulp x) \<le> 2 ^ 53"
proof -
  have "of_int 0 \<le> x / ulp x" using assms ulp_pos [of x] by simp
  then have lo: "0 \<le> round_half_even (x / ulp x)" by (rule rhe_ge)
  have "x < 2 powi (binade x + 1)" using binade_upper [of x] assms by simp
  also have "\<dots> = of_int (2 ^ 53) * ulp x"
    unfolding ulp_def by (rule p2_split53)
  finally have "x / ulp x \<le> of_int (2 ^ 53)"
    using ulp_pos [of x] by (simp add: pos_divide_le_eq)
  then have "round_half_even (x / ulp x) \<le> 2 ^ 53" by (rule rhe_le)
  with lo show ?thesis by simp
qed

lemma double_round_multiple:
  assumes "x = of_int m * ulp x"
  shows "double_round x = x"
proof -
  from assms have "x / ulp x = of_int m * ulp x / ulp x"
    by (rule arg_cong [where f = "\<lambda>t. t / ulp x"])
  also have "\<dots> = of_int m" using ulp_pos [of x] by simp
  finally have "double_round x = of_int m * ulp x"
    by (simp only: double_round_def rhe_of_int)
  with assms show ?thesis by simp
qed

lemma double_round_fixed:
  assumes n: "0 \<le> n" "n < 2 ^ 53" and e: "- 1074 \<le> e"
    and lt: "of_int n * (2::real) powi e < 2 powi 1024"
  shows "double_round (of_int n * 2 powi e) = of_int n * 2 powi e"
proof (cases "n = 0")
  case True
  then show ?thesis by (simp add: double_round_0)
next
  case False
  let ?x = "of_int n * (2::real) powi e"
  have x0: "0 \<le> ?x" using n(1) p2_pos [of e] by simp
  have be: "binade ?x - 52 \<le> e"
  proof (cases "- 1022 < binade ?x")
    case True
    moreover have "\<bar>?x\<bar> < 2 powi 1024" using lt x0 by (simp only: abs_of_nonneg)
    ultimately have "2 powi binade ?x \<le> \<bar>?x\<bar>" by (rule binade_lower)
    also have "\<bar>?x\<bar> = ?x" using x0 by (simp only: abs_of_nonneg)
    also have "?x < of_int (2 ^ 53) * 2 powi e"
      using n(2) p2_pos [of e] by (simp del: of_int_power of_int_numeral)
    also have "\<dots> = 2 powi (e + 52 + 1)" using p2_split53 [of "e + 52"] by simp
    finally show ?thesis by (simp add: p2_less)
  next
    case False
    with binade_range [of ?x] e show ?thesis by simp
  qed
  define b where "b = binade ?x - 52"
  define d where "d = nat (e - b)"
  have eq: "e = b + int d" using be by (simp add: d_def b_def)
  have pe: "(2::real) powi e = 2 powi b * 2 ^ d"
    unfolding eq by (simp only: p2_add power_int_of_nat)
  have u: "ulp ?x = 2 powi b" by (simp add: ulp_def b_def)
  have "?x = of_int (n * 2 ^ d) * 2 powi b" by (simp add: pe)
  also have "2 powi b = ulp ?x" by (rule u [symmetric])
  finally have "?x = of_int (n * 2 ^ d) * ulp ?x" .
  then show ?thesis by (rule double_round_multiple)
qed

lemma double_round_p2:
  assumes "- 1074 \<le> k" and "k \<le> 1023"
  shows "double_round (2 powi k) = 2 powi k"
proof -
  have "(2::real) powi k < 2 powi 1024" using assms(2) by (simp add: p2_less)
  then show ?thesis using double_round_fixed [of 1 k] assms(1) by simp
qed

lemma double_round_idem:
  assumes "0 \<le> x" and "x < 2 powi 1024" and r: "double_round x < 2 powi 1024"
  shows "double_round (double_round x) = double_round x"
proof -
  let ?n = "round_half_even (x / ulp x)"
  have n: "0 \<le> ?n" "?n \<le> 2 ^ 53" using double_round_significand [OF assms(1,2)] by simp_all
  have dr: "double_round x = of_int ?n * 2 powi (binade x - 52)"
    by (simp add: double_round_def ulp_def)
  have e: "- 1074 \<le> binade x - 52" using binade_range [of x] by simp
  show ?thesis
  proof (cases "?n = 2 ^ 53")
    case True
    have p: "double_round x = 2 powi (binade x + 1)"
      unfolding dr True by (rule p2_split53 [symmetric])
    with r have "binade x + 1 \<le> 1023" by (simp add: p2_less)
    then show ?thesis
      unfolding p using binade_range [of x] by (intro double_round_p2) simp_all
  next
    case False
    with n have "?n < 2 ^ 53" by simp
    then show ?thesis
      unfolding dr using n(1) e r [unfolded dr] by (intro double_round_fixed)
  qed
qed

lemma double_round_mono:
  assumes "0 \<le> x" and "x \<le> y" and "y < 2 powi 1024"
  shows "double_round x \<le> double_round y"
proof -
  have y0: "0 \<le> y" using assms by simp
  have b: "binade x \<le> binade y" using assms by (intro binade_mono) simp_all
  show ?thesis
  proof (cases "binade x = binade y")
    case True
    then have u: "ulp x = ulp y" by (simp add: ulp_def)
    have "x / ulp y \<le> y / ulp y" using assms(2) ulp_pos [of y] by (simp add: divide_right_mono)
    then have "round_half_even (x / ulp y) \<le> round_half_even (y / ulp y)" by (rule rhe_mono)
    then show ?thesis using ulp_pos [of y] by (simp add: double_round_def u)
  next
    case False
    with b have lt: "binade x < binade y" by simp
    with binade_range [of x] have "- 1022 < binade y" by simp
    then have "2 powi binade y \<le> \<bar>y\<bar>" using assms(3) y0 by (intro binade_lower) simp_all
    then have "of_int (2 ^ 52) * ulp y \<le> y"
      using y0 unfolding ulp_def p2_split52 [symmetric] by (simp only: abs_of_nonneg)
    then have "of_int (2 ^ 52) \<le> y / ulp y"
      using ulp_pos [of y] by (simp add: pos_le_divide_eq)
    then have "2 ^ 52 \<le> round_half_even (y / ulp y)" by (rule rhe_ge)
    then have "of_int (2 ^ 52) * ulp y \<le> double_round y"
      unfolding double_round_def using ulp_pos [of y]
      by (intro mult_right_mono) (simp_all del: of_int_power of_int_numeral)
    then have lo: "2 powi binade y \<le> double_round y"
      unfolding ulp_def p2_split52 [symmetric] .
    have "x < 2 powi 1024" using assms by simp
    then have "round_half_even (x / ulp x) \<le> 2 ^ 53"
      using double_round_significand [of x] assms(1) by simp
    then have "double_round x \<le> of_int (2 ^ 53) * ulp x"
      unfolding double_round_def using ulp_pos [of x]
      by (intro mult_right_mono) (simp_all del: of_int_power of_int_numeral)
    also have "\<dots> = 2 powi (binade x + 1)"
      unfolding ulp_def by (rule p2_split53 [symmetric])
    also have "\<dots> \<le> 2 powi binade y" using lt by (simp add: p2_le)
    finally show ?thesis using lo by simp
  qed
qed

lemma double_round_succ:
  assumes c: "0 \<le> c" "double_round c = c" and lt: "c + ulp c < 2 powi 1024"
  shows "double_round (c + ulp c) = c + ulp c"
proof -
  let ?n = "round_half_even (c / ulp c)"
  have c1024: "c < 2 powi 1024" using lt ulp_pos [of c] by simp
  have n: "0 \<le> ?n" "?n \<le> 2 ^ 53" using double_round_significand [OF c(1) c1024] by simp_all
  have dr: "c = of_int ?n * ulp c" using c(2) by (simp add: double_round_def)
  have "c < 2 powi (binade c + 1)" using binade_upper [of c] c(1) c1024 by simp
  also have "\<dots> = of_int (2 ^ 53) * ulp c"
    unfolding ulp_def by (rule p2_split53)
  finally have "of_int ?n * ulp c < of_int (2 ^ 53) * ulp c" using dr by simp
  then have n53: "?n < 2 ^ 53" using ulp_pos [of c] by (simp del: of_int_power of_int_numeral)
  have s: "c + ulp c = of_int (?n + 1) * 2 powi (binade c - 52)"
    by (subst dr) (simp add: ulp_def algebra_simps)
  have e: "- 1074 \<le> binade c - 52" using binade_range [of c] by simp
  show ?thesis
  proof (cases "?n + 1 = 2 ^ 53")
    case True
    have p: "c + ulp c = 2 powi (binade c + 1)"
      unfolding s True by (rule p2_split53 [symmetric])
    with lt have "binade c + 1 \<le> 1023" by (simp add: p2_less)
    then show ?thesis
      unfolding p using binade_range [of c] by (intro double_round_p2) simp_all
  next
    case False
    with n53 have "?n + 1 < 2 ^ 53" by simp
    then show ?thesis
      unfolding s using n(1) e lt [unfolded s] by (intro double_round_fixed) simp_all
  qed
qed

subsection \<open>Hero parallax\<close>

lemma hero_progress_clamp:
  assumes "0 < vh" and "0 \<le> y"
  shows "hero_progress y vh = clamp (y / (vh * 0.7)) 0 1"
proof -
  have "0 \<le> y / (vh * 0.7)" using assms by simp
  then show ?thesis by (simp add: hero_progress_def clamp_def)
qed

lemma hero_progress_mono:
  assumes "0 < vh" and "y \<le> y'"
  shows "hero_progress y vh \<le> hero_progress y' vh"
proof -
  have "y / (vh * 0.7) \<le> y' / (vh * 0.7)"
    using assms by (simp add: divide_right_mono)
  then show ?thesis unfolding hero_progress_def by (rule min.mono) simp
qed

text \<open>
  Claim C2. For every \<open>scrollY\<close> in \<open>[0, viewportHeight]\<close> (with a positive viewport
  height, as the data model requires), the hero's \<open>contentOpacity\<close> is
  \<open>1 - clamp (scrollY / (viewportHeight * 0.7)) 0 1\<close>, and it does not increase when
  \<open>scrollY\<close> grows within that interval.
\<close>

theorem contentOpacity_clamp_antimono:
  assumes "0 < vh" and "0 \<le> y" and "y \<le> vh"
  shows "contentOpacity y vh = 1 - clamp (y / (vh * 0.7)) 0 1 \<and>
         (\<forall>y'. y \<le> y' \<and> y' \<le> vh \<longrightarrow> contentOpacity y' vh \<le> contentOpacity y vh)"
proof
  show "contentOpacity y vh = 1 - clamp (y / (vh * 0.7)) 0 1"
    using assms by (simp add: contentOpacity_def hero_progress_clamp)
next
  show "\<forall>y'. y \<le> y' \<and> y' \<le> vh \<longrightarrow> contentOpacity y' vh \<le> contentOpacity y vh"
    using assms(1) by (simp add: contentOpacity_def hero_progress_mono)
qed

theorem contentOpacity_clamp_antimono_witness:
  "(0::real) < 800 \<and> (0::real) \<le> 280 \<and> (280::real) \<le> 800 \<and>
   contentOpacity 280 800 = 1 - clamp (280 / (800 * 0.7)) 0 1 \<and>
   contentOpacity 280 800 = 1 / 2 \<and>
   contentOpacity 560 800 \<le> contentOpacity 280 800"
proof -
  have h: "(0::real) < 800" "(0::real) \<le> 280" "(280::real) \<le> 800" by simp_all
  note inst = contentOpacity_clamp_antimono [OF h]
  from inst have "contentOpacity 280 800 = 1 - clamp (280 / (800 * 0.7)) 0 1"
    by (rule conjunct1)
  moreover from inst have "contentOpacity 560 800 \<le> contentOpacity 280 800"
    by (elim conjE allE [of _ 560]) simp
  moreover have "contentOpacity 280 800 = 1 / 2"
    by (simp add: contentOpacity_def hero_progress_def)
  ultimately show ?thesis by simp
qed

subsection \<open>Scroll progress bar\<close>

text \<open>
  Claim C7 as stated fails: the source divides and multiplies, and never clamps. With a
  document of height 2000 in a viewport of height 1000, an offset of 1500 (beyond the
  largest scroll position, as an elastic overscroll reports it) gives the progress 150,
  so the bar is scaled by 3/2, where the clamp gives 1.
\<close>

theorem updateProgress_unclamped_counterexample:
  "(1000::real) \<le> 2000 \<and> updateProgress 2000 1000 1500 = 150 \<and>
   bar_scaleX (updateProgress 2000 1000 1500) = 3 / 2 \<and>
   clamp (1500 / (2000 - 1000)) 0 1 = 1 \<and>
   1 < bar_scaleX (updateProgress 2000 1000 1500)"
  by (simp add: updateProgress_def bar_scaleX_def clamp_def)

text \<open>
  Claim C7, amended. For a document at least as high as the viewport, the fraction the
  bar is scaled by is \<open>offsetY / (documentHeight - viewportHeight)\<close> when that
  denominator is positive and \<open>0\<close> otherwise, with no clamping; whenever
  \<open>0 \<le> offsetY \<le> documentHeight - viewportHeight\<close> it equals the clamped quotient and
  lies between 0 and 1.
\<close>

theorem updateProgress_fraction:
  assumes "vh \<le> dh"
  shows "bar_scaleX (updateProgress dh vh y) = (if dh - vh > 0 then y / (dh - vh) else 0) \<and>
         (0 \<le> y \<and> y \<le> dh - vh \<longrightarrow>
            bar_scaleX (updateProgress dh vh y) =
              (if dh - vh > 0 then clamp (y / (dh - vh)) 0 1 else 0) \<and>
            0 \<le> bar_scaleX (updateProgress dh vh y) \<and>
            bar_scaleX (updateProgress dh vh y) \<le> 1)"
proof (cases "dh - vh > 0")
  case True
  have "updateProgress dh vh y = (y / (dh - vh)) * 100"
    unfolding updateProgress_def Let_def using True by (simp only: if_True)
  then have eq: "bar_scaleX (updateProgress dh vh y) = y / (dh - vh)"
    unfolding bar_scaleX_def by (simp only: nonzero_mult_div_cancel_right)
  have "0 \<le> y / (dh - vh) \<and> y / (dh - vh) \<le> 1" if "0 \<le> y" "y \<le> dh - vh"
    using that True by simp
  then show ?thesis using True eq by (auto simp: clamp_def)
next
  case False
  then show ?thesis by (simp add: updateProgress_def bar_scaleX_def)
qed

theorem updateProgress_fraction_witness:
  "(1000::real) \<le> 2000 \<and> (0::real) \<le> 500 \<and> (500::real) \<le> 2000 - 1000 \<and>
   bar_scaleX (updateProgress 2000 1000 500) = 1 / 2 \<and>
   bar_scaleX (updateProgress 2000 1000 500) = clamp (500 / (2000 - 1000)) 0 1 \<and>
   bar_scaleX (updateProgress 2000 1000 500) \<le> 1"
  using updateProgress_fraction [of 1000 2000 500] by (simp add: clamp_def)

subsection \<open>Navigation: hiding on scroll\<close>

text \<open>
  Claim C3 as stated fails at an upward delta of exactly 10: the source compares with
  \<open>> 10\<close>. After a scroll from 0 to 610 the bar is hidden; the scroll up to 600 is an
  upward delta of 10 at an offset above 500, and the bar stays hidden.
\<close>

theorem nav_upward_delta_10_counterexample:
  "hideNav (nav_step (Scroll 610) nav_init) \<and>
   lastScrollY (nav_step (Scroll 610) nav_init) - 600 \<ge> 10 \<and>
   hideNav (nav_step (Scroll 600) (nav_step (Scroll 610) nav_init))"
  by (simp add: nav_step_def nav_commit_def nav_state_changed_def nav_handleScroll_def
      nav_init_def Let_def)

lemma hideNav_nav_commit [simp]: "hideNav (nav_commit p old new) = hideNav new"
  by (simp add: nav_commit_def Let_def)

lemma lastScrollY_nav_commit [simp]: "lastScrollY (nav_commit p old new) = lastScrollY new"
  by (simp add: nav_commit_def Let_def)

lemma mobileOpen_nav_commit [simp]: "mobileOpen (nav_commit p old new) = mobileOpen new"
  by (simp add: nav_commit_def Let_def)

lemma searchOpen_nav_commit [simp]: "searchOpen (nav_commit p old new) = searchOpen new"
  by (simp add: nav_commit_def Let_def)

text \<open>
  Claim C3, amended. For every state the navigation controller can be in and every
  scroll event, the value of \<open>hideNav\<close> after the event is determined as follows: at an
  offset at or below 500 it is false; above 500 it is true when the downward delta from
  the previous offset is more than 10, false when the upward delta is more than 10, and
  unchanged otherwise, that is when the delta is within 10 either way, a delta of exactly
  10 upward or downward included. Hence \<open>hideNav\<close> becomes true only when the offset
  exceeds 500 and the downward delta is more than 10 (so in particular at least 10), and
  it does become true then; an upward delta of more than 10 sets it to false; an upward
  delta of exactly 10 above 500 leaves it as it was. The previous offset is replaced by
  the current one.
\<close>

theorem nav_hide_rule:
  "hideNav (nav_step (Scroll y) s) =
     (if y > 500 then
        (if y - lastScrollY s > 10 then True
         else if lastScrollY s - y > 10 then False
         else hideNav s)
      else False) \<and>
   (hideNav (nav_step (Scroll y) s) \<and> \<not> hideNav s \<longrightarrow>
      y > 500 \<and> y - lastScrollY s > 10 \<and> y - lastScrollY s \<ge> 10) \<and>
   (y > 500 \<and> y - lastScrollY s > 10 \<longrightarrow> hideNav (nav_step (Scroll y) s)) \<and>
   (lastScrollY s - y > 10 \<longrightarrow> \<not> hideNav (nav_step (Scroll y) s)) \<and>
   (y \<le> 500 \<longrightarrow> \<not> hideNav (nav_step (Scroll y) s)) \<and>
   (y > 500 \<and> y - lastScrollY s \<le> 10 \<and> lastScrollY s - y \<le> 10 \<longrightarrow>
      hideNav (nav_step (Scroll y) s) = hideNav s) \<and>
   (y > 500 \<and> lastScrollY s - y = 10 \<longrightarrow>
      hideNav (nav_step (Scroll y) s) = hideNav s) \<and>
   lastScrollY (nav_step (Scroll y) s) = y"
  by (auto simp: nav_step_def nav_handleScroll_def Let_def)

text \<open>
  The witness runs the sequence of the specification, \<open>[0, 100, 600, 580, 620]\<close>: the
  bar is hidden by the jump from 100 to 600, shown again by the step up to 580 (an upward
  delta of 20) and hidden again by the step down to 620. After \<open>[0, 100, 600]\<close> a step up
  to 590 (an upward delta of exactly 10) leaves the bar hidden, and after
  \<open>[0, 100, 600, 580]\<close> a step down to 590 (a downward delta of exactly 10) leaves it shown.
\<close>

theorem nav_hide_rule_witness:
  "\<not> hideNav (nav_run [Scroll 0, Scroll 100] nav_init) \<and>
   hideNav (nav_step (Scroll 600) (nav_run [Scroll 0, Scroll 100] nav_init)) \<and>
   (600::real) > 500 \<and> 600 - lastScrollY (nav_run [Scroll 0, Scroll 100] nav_init) > 10 \<and>
   lastScrollY (nav_run [Scroll 0, Scroll 100, Scroll 600] nav_init) - 580 > 10 \<and>
   \<not> hideNav (nav_run [Scroll 0, Scroll 100, Scroll 600, Scroll 580] nav_init) \<and>
   hideNav (nav_run [Scroll 0, Scroll 100, Scroll 600, Scroll 580, Scroll 620] nav_init) \<and>
   \<not> hideNav (nav_run [Scroll 0, Scroll 100, Scroll 600, Scroll 400] nav_init) \<and>
   lastScrollY (nav_run [Scroll 0, Scroll 100, Scroll 600] nav_init) - 590 = 10 \<and>
   hideNav (nav_run [Scroll 0, Scroll 100, Scroll 600, Scroll 590] nav_init) \<and>
   \<not> hideNav (nav_run [Scroll 0, Scroll 100, Scroll 600, Scroll 580, Scroll 590] nav_init)"
proof -
  let ?s2 = "nav_run [Scroll 0, Scroll 100] nav_init"
  let ?s3 = "nav_run [Scroll 0, Scroll 100, Scroll 600] nav_init"
  let ?s4 = "nav_step (Scroll 580) ?s3"
  have s2: "lastScrollY ?s2 = 100" "\<not> hideNav ?s2"
    by (simp_all add: nav_run_def nav_step_def nav_handleScroll_def nav_init_def Let_def)
  have s3: "?s3 = nav_step (Scroll 600) ?s2" by (simp add: nav_run_def)
  have l3: "lastScrollY ?s3 = 600"
    unfolding s3 using nav_hide_rule [of 600 ?s2] by simp
  have h3: "hideNav (nav_step (Scroll 600) ?s2)"
    using nav_hide_rule [of 600 ?s2] s2 by simp
  have h4: "\<not> hideNav ?s4" and l4: "lastScrollY ?s4 = 580"
    using nav_hide_rule [of 580 ?s3] l3 by simp_all
  have "\<not> hideNav (nav_step (Scroll 400) ?s3)"
    using nav_hide_rule [of 400 ?s3] by simp
  moreover have "hideNav (nav_step (Scroll 620) ?s4)"
    using nav_hide_rule [of 620 ?s4] l4 by simp
  moreover have "hideNav (nav_step (Scroll 590) ?s3)"
    using nav_hide_rule [of 590 ?s3] l3 h3 s3 by simp
  moreover have "\<not> hideNav (nav_step (Scroll 590) ?s4)"
    using nav_hide_rule [of 590 ?s4] l4 h4 by simp
  ultimately show ?thesis using s2 l3 h3 h4 by (simp add: nav_run_def)
qed

subsection \<open>Navigation: the header while the mobile menu is open\<close>

text \<open>
  Claim C10. After every sequence of events, the header carries the hiding class
  \<open>-translate-y-full\<close> exactly when \<open>hideNav\<close> is true and \<open>mobileOpen\<close> is false; in
  particular it is never translated off-screen while the mobile menu is open.
\<close>

theorem header_never_hidden_while_menu_open:
  "(header_translate (nav_run es nav_init) = ''-translate-y-full'') =
     (hideNav (nav_run es nav_init) \<and> \<not> mobileOpen (nav_run es nav_init)) \<and>
   (mobileOpen (nav_run es nav_init) \<longrightarrow>
      header_translate (nav_run es nav_init) = ''translate-y-0'')"
  by (simp add: header_translate_def)

text \<open>
  The witness reaches the four combinations of the two flags: neither; hidden only (the
  one that hides the header); hidden with the menu open; menu open only.
\<close>

theorem header_never_hidden_while_menu_open_witness:
  "header_translate (nav_run [] nav_init) = ''translate-y-0'' \<and>
   hideNav (nav_run [Scroll 600] nav_init) \<and>
   \<not> mobileOpen (nav_run [Scroll 600] nav_init) \<and>
   header_translate (nav_run [Scroll 600] nav_init) = ''-translate-y-full'' \<and>
   hideNav (nav_run [Scroll 600, HamburgerClick] nav_init) \<and>
   mobileOpen (nav_run [Scroll 600, HamburgerClick] nav_init) \<and>
   header_translate (nav_run [Scroll 600, HamburgerClick] nav_init) = ''translate-y-0'' \<and>
   \<not> hideNav (nav_run [HamburgerClick] nav_init) \<and>
   mobileOpen (nav_run [HamburgerClick] nav_init) \<and>
   header_translate (nav_run [HamburgerClick] nav_init) = ''translate-y-0''"
proof -
  have flags:
    "hideNav (nav_run [Scroll 600] nav_init)"
    "\<not> mobileOpen (nav_run [Scroll 600] nav_init)"
    "hideNav (nav_run [Scroll 600, HamburgerClick] nav_init)"
    "mobileOpen (nav_run [Scroll 600, HamburgerClick] nav_init)"
    "\<not> hideNav (nav_run [HamburgerClick] nav_init)"
    "mobileOpen (nav_run [HamburgerClick] nav_init)"
    "\<not> hideNav (nav_run [] nav_init)"
    "\<not> mobileOpen (nav_run [] nav_init)"
    by (simp_all add: nav_run_def nav_step_def nav_handleScroll_def nav_init_def Let_def)
  show ?thesis
    using flags
      header_never_hidden_while_menu_open [of "[]"]
      header_never_hidden_while_menu_open [of "[Scroll 600]"]
      header_never_hidden_while_menu_open [of "[Scroll 600, HamburgerClick]"]
      header_never_hidden_while_menu_open [of "[HamburgerClick]"]
    by (simp add: header_translate_def)
qed

subsection \<open>Body scroll lock\<close>

text \<open>
  Claim C8 as stated fails: neither effect counts the open overlays. Opening the mobile
  menu (hamburger) and then the search overlay (search button) locks body scroll; closing
  the search overlay with its close button re-runs the overlay's effect, whose cleanup and
  whose \<open>else\<close> branch both write \<open>''\<close>, and body scroll is unlocked although the mobile
  menu is still open.
\<close>

theorem body_unlocked_while_menu_open_counterexample:
  "mobileOpen (nav_run [HamburgerClick, SearchButtonClick] nav_init) \<and>
   searchOpen (nav_run [HamburgerClick, SearchButtonClick] nav_init) \<and>
   body_locked (nav_run [HamburgerClick, SearchButtonClick] nav_init) \<and>
   mobileOpen (nav_run [HamburgerClick, SearchButtonClick, SearchClose] nav_init) \<and>
   \<not> searchOpen (nav_run [HamburgerClick, SearchButtonClick, SearchClose] nav_init) \<and>
   \<not> body_locked (nav_run [HamburgerClick, SearchButtonClick, SearchClose] nav_init)"
  by (simp add: nav_run_def nav_step_def nav_commit_def nav_state_changed_def nav_init_def
      body_locked_def search_effect_cleanup_def search_effect_body_def
      nav_effect_cleanup_def nav_effect_body_def Let_def)

lemma body_locked_nav_commit:
  "body_locked (nav_commit p old new) =
     (if p \<or> nav_state_changed old new
      then (if mobileOpen new \<noteq> mobileOpen old then mobileOpen new else searchOpen new)
      else body_locked new)"
  by (simp add: nav_commit_def body_locked_def search_effect_cleanup_def
      search_effect_body_def nav_effect_cleanup_def nav_effect_body_def Let_def)

text \<open>
  Claim C8, amended. Body scroll is locked when an overlay (mobile menu or search
  overlay) opens and restored when an overlay closes; the lock is neither
  reference-counted nor idempotent across overlays: each overlay's effect writes the body
  overflow on its own, so after an event that opens or closes the mobile menu the body is
  locked exactly if the mobile menu is open, and after an event that opens or closes only
  the search overlay the body is locked exactly if the search overlay is open, whatever
  the state of the other overlay.
\<close>

theorem body_lock_follows_last_change:
  "(mobileOpen (nav_step e s) \<noteq> mobileOpen s \<longrightarrow>
      body_locked (nav_step e s) = mobileOpen (nav_step e s)) \<and>
   (mobileOpen (nav_step e s) = mobileOpen s \<and> searchOpen (nav_step e s) \<noteq> searchOpen s \<longrightarrow>
      body_locked (nav_step e s) = searchOpen (nav_step e s))"
  by (simp add: nav_step_def body_locked_nav_commit nav_state_changed_def)

theorem body_lock_follows_last_change_witness:
  "mobileOpen (nav_step HamburgerClick nav_init) \<noteq> mobileOpen nav_init \<and>
   mobileOpen (nav_step HamburgerClick nav_init) \<and>
   body_locked (nav_step HamburgerClick nav_init) \<and>
   mobileOpen (nav_step SearchClose (nav_run [HamburgerClick, SearchButtonClick] nav_init)) =
     mobileOpen (nav_run [HamburgerClick, SearchButtonClick] nav_init) \<and>
   searchOpen (nav_step SearchClose (nav_run [HamburgerClick, SearchButtonClick] nav_init)) \<noteq>
     searchOpen (nav_run [HamburgerClick, SearchButtonClick] nav_init) \<and>
   \<not> body_locked (nav_step SearchClose (nav_run [HamburgerClick, SearchButtonClick] nav_init))"
proof -
  let ?s = "nav_run [HamburgerClick, SearchButtonClick] nav_init"
  have a: "mobileOpen (nav_step HamburgerClick nav_init)" "\<not> mobileOpen nav_init"
    by (simp_all add: nav_step_def nav_init_def)
  have b: "mobileOpen ?s" "searchOpen ?s"
    "mobileOpen (nav_step SearchClose ?s)" "\<not> searchOpen (nav_step SearchClose ?s)"
    by (simp_all add: nav_run_def nav_step_def nav_init_def)
  show ?thesis
    using a b body_lock_follows_last_change [of HamburgerClick nav_init]
      body_lock_follows_last_change [of SearchClose ?s]
    by simp
qed

subsection \<open>Animated counter\<close>

lemma counter_run_0: "counter_run v 0 = counter_start"
  by (simp add: counter_run_def)

lemma counter_run_Suc: "counter_run v (Suc n) = counter_tick v (counter_run v n)"
  by (simp add: counter_run_def)

lemma counter_tick_cleared: "\<not> interval_active c \<Longrightarrow> counter_tick v c = c"
  by (simp add: counter_tick_def)

lemma counter_run_cleared:
  assumes "\<not> interval_active (counter_run v N)" and "N \<le> n"
  shows "counter_run v n = counter_run v N"
  using assms(2)
proof (induction n)
  case 0
  then show ?case by simp
next
  case (Suc n)
  show ?case
  proof (cases "N \<le> n")
    case True
    with Suc.IH have "counter_run v n = counter_run v N" by simp
    then show ?thesis using assms(1) by (simp add: counter_run_Suc counter_tick_cleared)
  next
    case False
    with Suc.prems have "Suc n = N" by simp
    then show ?thesis by simp
  qed
qed

text \<open>
  While the interval is set, \<open>current\<close> is a double below the target. The rounded
  increment is at most the target and, when it is not zero, at least the gap between
  \<open>current\<close> and the next double above it; so every tick moves \<open>current\<close> up by at least
  the smallest positive double, and the sum stays a double.
\<close>

lemma increment_le:
  assumes "double_round v = v" and "0 \<le> v" and "v \<le> 2 powi 1023"
  shows "ddiv v 60 \<le> v"
proof -
  have "(2::real) powi 1023 < 2 powi 1024" by (simp only: p2_less)
  with assms(3) have "v < 2 powi 1024" by simp
  moreover have "0 \<le> v / 60" "v / 60 \<le> v" using assms(2) by simp_all
  ultimately have "double_round (v / 60) \<le> double_round v" by (intro double_round_mono)
  then show ?thesis by (simp add: ddiv_def assms(1))
qed

lemma ulp_le_increment:
  assumes c: "0 \<le> c" "c < v" and v: "v \<le> 2 powi 1023" and inc: "0 < ddiv v 60"
  shows "ulp c \<le> ddiv v 60"
proof -
  have p: "(2::real) powi 1023 < 2 powi 1024" by (simp only: p2_less)
  have v1024: "v < 2 powi 1024" using v p by simp
  have v60: "0 \<le> v / 60" "v / 60 < 2 powi 1024" using c v1024 by simp_all
  show ?thesis
  proof (cases "- 1022 < binade c")
    case True
    have "\<bar>c\<bar> < 2 powi 1024" using c v1024 by simp
    with True have "2 powi binade c \<le> \<bar>c\<bar>" by (rule binade_lower)
    then have "of_int (2 ^ 52) * ulp c \<le> c"
      using c(1) unfolding ulp_def p2_split52 [symmetric] by (simp only: abs_of_nonneg)
    then have "of_int (2 ^ 52) * ulp c < v" using c(2) by simp
    moreover have "60 * ulp c \<le> of_int (2 ^ 52) * ulp c"
      using ulp_pos [of c] by (intro mult_right_mono) simp_all
    ultimately have le: "ulp c \<le> v / 60" by simp
    have "double_round (ulp c) = ulp c"
      unfolding ulp_def using binade_range [of c] by (intro double_round_p2) simp_all
    moreover have "double_round (ulp c) \<le> double_round (v / 60)"
      using ulp_pos [of c] le v60(2) by (intro double_round_mono) simp_all
    ultimately show ?thesis by (simp add: ddiv_def)
  next
    case False
    with binade_range [of c] have u: "ulp c = 2 powi (- 1074)" by (simp add: ulp_def)
    let ?n = "round_half_even (v / 60 / ulp (v / 60))"
    have "0 < of_int ?n * ulp (v / 60)" using inc by (simp add: ddiv_def double_round_def)
    then have "0 < ?n" using ulp_pos [of "v / 60"] by (simp add: zero_less_mult_iff)
    then have "1 * ulp (v / 60) \<le> of_int ?n * ulp (v / 60)"
      using ulp_pos [of "v / 60"] by (intro mult_right_mono) simp_all
    then have "ulp (v / 60) \<le> ddiv v 60" by (simp add: ddiv_def double_round_def)
    with ulp_ge [of "v / 60"] show ?thesis unfolding u by simp
  qed
qed

lemma dadd_progress:
  assumes c: "double_round c = c" "0 \<le> c" "c < v"
    and v: "double_round v = v" "v \<le> 2 powi 1023" and inc: "0 < ddiv v 60"
  shows "c + 2 powi (- 1074) \<le> dadd c (ddiv v 60)"
proof -
  have v0: "0 \<le> v" using c by simp
  have le: "ddiv v 60 \<le> v" using v v0 by (intro increment_le)
  have u: "ulp c \<le> ddiv v 60" using c(2,3) v(2) inc by (rule ulp_le_increment)
  have "(2::real) powi 1024 = 2 * 2 powi 1023"
    using p2_add [of 1 1023] by simp
  then have lt: "c + ddiv v 60 < 2 powi 1024" using c(3) le v(2) by simp
  then have "c + ulp c < 2 powi 1024" using u by simp
  with c have "double_round (c + ulp c) = c + ulp c" by (intro double_round_succ)
  moreover have "double_round (c + ulp c) \<le> double_round (c + ddiv v 60)"
    using c(2) ulp_pos [of c] u lt by (intro double_round_mono) simp_all
  ultimately have "c + ulp c \<le> dadd c (ddiv v 60)" by (simp add: dadd_def)
  with ulp_ge [of c] show ?thesis by simp
qed

lemma dadd_fixed:
  assumes c: "0 \<le> c" "c < v"
    and v: "double_round v = v" "v \<le> 2 powi 1023" and r: "dadd c (ddiv v 60) < v"
  shows "double_round (dadd c (ddiv v 60)) = dadd c (ddiv v 60)"
proof -
  have v0: "0 \<le> v" using c by simp
  have p: "(2::real) powi 1023 < 2 powi 1024" by (simp only: p2_less)
  have le: "ddiv v 60 \<le> v" using v v0 by (intro increment_le)
  have i0: "0 \<le> ddiv v 60" using v0 by (simp add: ddiv_def double_round_nonneg)
  have "(2::real) powi 1024 = 2 * 2 powi 1023"
    using p2_add [of 1 1023] by simp
  then have lt: "c + ddiv v 60 < 2 powi 1024" using c(2) le v(2) by simp
  have "double_round (c + ddiv v 60) < 2 powi 1024" using r v(2) p by (simp add: dadd_def)
  then show ?thesis
    unfolding dadd_def using c(1) i0 lt by (intro double_round_idem) simp_all
qed

text \<open>
  The invariant of the ticking counter, the count once the interval is cleared, and
  termination: after \<open>n\<close> ticks with the interval still set, \<open>current\<close> is at least
  \<open>n\<close> times the smallest positive double and still below the target.
\<close>

lemma counter_ticking:
  assumes v: "double_round v = v" "0 < v" "v \<le> 2 powi 1023" and inc: "0 < ddiv v 60"
    and act: "interval_active (counter_run v n)"
  shows "double_round (current (counter_run v n)) = current (counter_run v n) \<and>
         of_nat n * 2 powi (- 1074) \<le> current (counter_run v n) \<and>
         current (counter_run v n) < v \<and>
         count (counter_run v n) = of_int \<lfloor>current (counter_run v n)\<rfloor>"
  using act
proof (induction n)
  case 0
  show ?case using v(2) by (simp add: counter_run_0 counter_start_def double_round_0)
next
  case (Suc n)
  let ?c = "counter_run v n"
  have a: "interval_active ?c"
  proof (rule ccontr)
    assume n: "\<not> interval_active ?c"
    then have "counter_run v (Suc n) = ?c" by (simp add: counter_run_Suc counter_tick_cleared)
    with Suc.prems n show False by simp
  qed
  note ih = Suc.IH [OF a]
  have c0: "0 \<le> current ?c"
    using ih p2_pos [of "- 1074"] by (meson dual_order.trans mult_nonneg_nonneg of_nat_0_le_iff less_imp_le)
  have lt: "dadd (current ?c) (ddiv v 60) < v"
    using Suc.prems a by (auto simp: counter_run_Suc counter_tick_def Let_def split: if_splits)
  have st: "counter_run v (Suc n) =
      ?c\<lparr>current := dadd (current ?c) (ddiv v 60),
         count := of_int \<lfloor>dadd (current ?c) (ddiv v 60)\<rfloor>\<rparr>"
    using a lt by (simp add: counter_run_Suc counter_tick_def Let_def)
  have pr: "current ?c + 2 powi (- 1074) \<le> dadd (current ?c) (ddiv v 60)"
    using ih c0 v inc by (intro dadd_progress) simp_all
  have fx: "double_round (dadd (current ?c) (ddiv v 60)) = dadd (current ?c) (ddiv v 60)"
    using ih c0 v lt by (intro dadd_fixed) simp_all
  have "of_nat (Suc n) * (2::real) powi (- 1074) = of_nat n * 2 powi (- 1074) + 2 powi (- 1074)"
    by (simp add: algebra_simps)
  also have "\<dots> \<le> current ?c + 2 powi (- 1074)" using ih by simp
  also note pr
  finally show ?case using fx lt by (simp add: st)
qed

lemma counter_cleared_count:
  "\<not> interval_active (counter_run v n) \<Longrightarrow> count (counter_run v n) = v"
proof (induction n)
  case 0
  then show ?case by (simp add: counter_run_0 counter_start_def)
next
  case (Suc n)
  then show ?case
    by (cases "interval_active (counter_run v n)")
       (auto simp: counter_run_Suc counter_tick_def Let_def split: if_splits)
qed

lemma counter_terminates:
  assumes v: "double_round v = v" "0 < v" "v \<le> 2 powi 1023" and inc: "0 < ddiv v 60"
    and n: "v * 2 powi 1074 \<le> of_nat n"
  shows "\<not> interval_active (counter_run v n)"
proof
  assume "interval_active (counter_run v n)"
  from counter_ticking [OF v inc this]
  have "of_nat n * 2 powi (- 1074) < v" by simp
  then have "of_nat n * 2 powi (- 1074) * 2 powi 1074 < v * 2 powi 1074"
    using p2_pos [of 1074] by (simp only: mult_less_cancel_right_pos)
  moreover have "(2::real) powi (- 1074) * 2 powi 1074 = 1"
    using p2_add [of "- 1074" 1074] by simp
  ultimately have "of_nat n < v * 2 powi 1074" by (simp add: mult.assoc)
  with n show False by simp
qed

lemma counter_count_le:
  assumes v: "double_round v = v" "0 < v" "v \<le> 2 powi 1023" and inc: "0 < ddiv v 60"
  shows "count (counter_run v n) \<le> v"
proof (cases "interval_active (counter_run v n)")
  case True
  from counter_ticking [OF v inc True]
  have "count (counter_run v n) = of_int \<lfloor>current (counter_run v n)\<rfloor>"
    and "current (counter_run v n) < v" by simp_all
  moreover have "of_int \<lfloor>current (counter_run v n)\<rfloor> \<le> current (counter_run v n)"
    by (rule of_int_floor_le)
  ultimately show ?thesis by linarith
next
  case False
  then show ?thesis by (simp add: counter_cleared_count)
qed

lemma counter_count_mono:
  assumes v: "double_round v = v" "0 < v" "v \<le> 2 powi 1023" and inc: "0 < ddiv v 60"
  shows "count (counter_run v n) \<le> count (counter_run v (Suc n))"
proof (cases "interval_active (counter_run v n)")
  case False
  then show ?thesis by (simp add: counter_run_Suc counter_tick_cleared)
next
  case True
  note t = counter_ticking [OF v inc True]
  show ?thesis
  proof (cases "interval_active (counter_run v (Suc n))")
    case False
    then have "count (counter_run v (Suc n)) = v" by (rule counter_cleared_count)
    with counter_count_le [OF v inc, of n] show ?thesis by simp
  next
    case a: True
    note t' = counter_ticking [OF v inc a]
    have c0: "0 \<le> current (counter_run v n)"
      using t p2_pos [of "- 1074"]
      by (meson dual_order.trans mult_nonneg_nonneg of_nat_0_le_iff less_imp_le)
    have "current (counter_run v (Suc n)) = dadd (current (counter_run v n)) (ddiv v 60)"
      using True a by (auto simp: counter_run_Suc counter_tick_def Let_def split: if_splits)
    moreover have "current (counter_run v n) + 2 powi (- 1074)
        \<le> dadd (current (counter_run v n)) (ddiv v 60)"
      using t c0 v inc by (intro dadd_progress) simp_all
    ultimately have "current (counter_run v n) \<le> current (counter_run v (Suc n))"
      using p2_pos [of "- 1074"] by linarith
    then have "\<lfloor>current (counter_run v n)\<rfloor> \<le> \<lfloor>current (counter_run v (Suc n))\<rfloor>"
      by (rule floor_mono)
    then show ?thesis using t t' by simp
  qed
qed

lemma counter_run_zero:
  "1 \<le> n \<Longrightarrow> counter_run 0 n = \<lparr>current = 0, count = 0, interval_active = False\<rparr>"
proof -
  assume n: "1 \<le> n"
  have one: "counter_run 0 1 = \<lparr>current = 0, count = 0, interval_active = False\<rparr>"
    by (simp add: counter_run_def counter_start_def counter_tick_def dadd_def ddiv_def
        double_round_0)
  then have "\<not> interval_active (counter_run 0 1)" by simp
  from counter_run_cleared [OF this n] one show ?thesis by simp
qed

text \<open>Computing a run of the counter on given numbers.\<close>

lemma counter_run_numeral:
  "counter_run v (numeral n) = counter_tick v (counter_run v (pred_numeral n))"
  by (simp add: numeral_eq_Suc counter_run_Suc)

lemmas counter_eval = counter_run_numeral counter_run_0 counter_run_Suc counter_tick_def
  counter_start_def
  double_eval power_int_numeral power_int_numeral_neg_numeral

lemma ddiv_smallest: "ddiv (2 powi (- 1074)) 60 = 0"
proof -
  let ?x = "(2::real) powi (- 1074) / 60"
  have "?x \<le> 2 powi (- 1074)" using p2_pos [of "- 1074"] by simp
  moreover have "(2::real) powi (- 1074) < 2 powi (- 1022)" by (simp only: p2_less)
  moreover have "0 \<le> ?x" using p2_pos [of "- 1074"] by simp
  ultimately have "\<bar>?x\<bar> < 2 powi (- 1022)" by linarith
  then have "binade ?x = - 1022" by (rule binade_subnormal)
  then have u: "ulp ?x = 2 powi (- 1074)" by (simp add: ulp_def)
  have "?x / ulp ?x = 1 / 60" unfolding u using p2_pos [of "- 1074"] by simp
  moreover have "round_half_even (1 / 60) = 0" by (simp add: round_half_even_def)
  ultimately show ?thesis by (simp add: ddiv_def double_round_def)
qed

lemma counter_stalled: "counter_run (2 powi (- 1074)) n = counter_start"
proof (induction n)
  case 0
  show ?case by (rule counter_run_0)
next
  case (Suc n)
  have "\<not> (2::real) powi (- 1074) \<le> 0" using p2_pos [of "- 1074"] by linarith
  then show ?case
    by (simp add: counter_run_Suc Suc counter_tick_def counter_start_def ddiv_smallest
        dadd_def double_round_0)
qed

text \<open>
  Claim C9 as stated fails for a target so small that the increment \<open>value / 60\<close> rounds
  to zero. The smallest positive double is \<open>2 powi (- 1074)\<close>; a sixtieth of it is nearer
  to 0 than to it, so the increment is 0, \<open>current\<close> stays 0 at every tick, the test
  \<open>current >= value\<close> never holds, the interval is never cleared and the count never
  becomes the target.
\<close>

theorem animated_counter_stalls_counterexample:
  "(0::real) \<le> 2 powi (- 1074) \<and>
   double_round (2 powi (- 1074)) = 2 powi (- 1074) \<and>
   ddiv (2 powi (- 1074)) 60 = 0 \<and>
   (\<forall>n. interval_active (counter_run (2 powi (- 1074)) n) \<and>
        count (counter_run (2 powi (- 1074)) n) = 0) \<and>
   interval_active (counter_run (2 powi (- 1074)) 1000000) \<and>
   count (counter_run (2 powi (- 1074)) 1000000) \<noteq> 2 powi (- 1074)"
proof -
  have "(0::real) < 2 powi (- 1074)" by (rule p2_pos)
  moreover have "double_round (2 powi (- 1074)) = 2 powi (- 1074)"
    by (rule double_round_p2) simp_all
  ultimately show ?thesis
    by (simp add: counter_stalled counter_start_def ddiv_smallest)
qed

text \<open>
  Claim C9, amended. For every target value \<open>v\<close> that is a double with
  \<open>0 \<le> v \<le> 2 powi 1023\<close> and is zero or has a nonzero increment \<open>v / 60\<close>, once the
  trigger has fired: the displayed count never decreases from one tick to the next, never
  exceeds \<open>v\<close>, and the tick loop terminates: from some tick on the interval is cleared
  and the count is exactly \<open>v\<close>. (The number of ticks is not always 60: the target 6 of
  the statistics section is reached at the 61st tick, because sixty rounded additions of
  the rounded increment stay below 6.)
\<close>

theorem animated_counter_reaches_target:
  assumes "double_round v = v" and "0 \<le> v" and "v \<le> 2 powi 1023"
    and "v = 0 \<or> 0 < ddiv v 60"
  shows "(\<forall>n. count (counter_run v n) \<le> count (counter_run v (Suc n))) \<and>
         (\<forall>n. count (counter_run v n) \<le> v) \<and>
         (\<exists>N. \<forall>n. N \<le> n \<longrightarrow>
            \<not> interval_active (counter_run v n) \<and> count (counter_run v n) = v)"
proof (cases "v = 0")
  case True
  have z: "\<And>n. count (counter_run 0 n) = 0"
  proof -
    fix n show "count (counter_run 0 n) = 0"
      using counter_run_zero [of n] by (cases n) (simp_all add: counter_run_0 counter_start_def)
  qed
  have "\<forall>n. 1 \<le> n \<longrightarrow> \<not> interval_active (counter_run 0 n) \<and> count (counter_run 0 n) = 0"
    by (simp add: counter_run_zero)
  then have "\<exists>N. \<forall>n. N \<le> n \<longrightarrow>
      \<not> interval_active (counter_run 0 n) \<and> count (counter_run 0 n) = 0" ..
  then show ?thesis unfolding True by (simp add: z)
next
  case False
  with assms have v: "double_round v = v" "0 < v" "v \<le> 2 powi 1023" and inc: "0 < ddiv v 60"
    by simp_all
  define N where "N = nat \<lceil>v * 2 powi 1074\<rceil>"
  have "\<forall>n. N \<le> n \<longrightarrow> \<not> interval_active (counter_run v n) \<and> count (counter_run v n) = v"
  proof (intro allI impI)
    fix n assume "N \<le> n"
    then have "v * 2 powi 1074 \<le> of_nat n" unfolding N_def by linarith
    from counter_terminates [OF v inc this]
    show "\<not> interval_active (counter_run v n) \<and> count (counter_run v n) = v"
      by (simp add: counter_cleared_count)
  qed
  then have "\<exists>N. \<forall>n. N \<le> n \<longrightarrow>
      \<not> interval_active (counter_run v n) \<and> count (counter_run v n) = v" ..
  then show ?thesis
    using counter_count_mono [OF v inc] counter_count_le [OF v inc] by simp
qed

lemma below_p2_1023: "(x::real) \<le> 2 ^ 14 \<Longrightarrow> x \<le> 2 powi 1023"
proof -
  assume "x \<le> 2 ^ 14"
  also have "(2::real) ^ 14 = 2 powi 14" by (simp add: power_int_numeral)
  also have "\<dots> \<le> 2 powi 1023" by (simp only: p2_le)
  finally show ?thesis .
qed

lemma stats_values:
  "double_round 6 = 6" "double_round 50 = 50" "double_round 200 = 200"
  "double_round 10000 = 10000" "0 < ddiv 6 60" "0 < ddiv 50 60" "0 < ddiv 200 60"
  "0 < ddiv 10000 60"
  by (simp_all add: double_eval power_int_numeral power_int_numeral_neg_numeral)

text \<open>
  The four targets of the statistics section (lines 2274-2277): 50, 200 and 10000 are
  reached at the 60th tick, 6 at the 61st; halfway, after 30 ticks, the target 50
  displays 24.
\<close>

lemma counter_run_page_values:
  "count (counter_run 50 30) = 24"
  "interval_active (counter_run 50 59)" "counter_run 50 60 =
     \<lparr>current = 7036874417766405 / 140737488355328, count = 50, interval_active = False\<rparr>"
  "interval_active (counter_run 200 59)" "counter_run 200 60 =
     \<lparr>current = 7036874417766405 / 35184372088832, count = 200, interval_active = False\<rparr>"
  "interval_active (counter_run 10000 59)" "counter_run 10000 60 =
     \<lparr>current = 10000, count = 10000, interval_active = False\<rparr>"
  by (simp_all add: counter_eval)

lemma counter_run_6:
  "counter_run 6 60 =
     \<lparr>current = 3377699720527869 / 562949953421312, count = 5, interval_active = True\<rparr>"
  "counter_run 6 61 =
     \<lparr>current = 214624669741875 / 35184372088832, count = 6, interval_active = False\<rparr>"
  by (simp_all add: counter_eval)

text \<open>
  The witness is the target 6 (line 2274): after 60 ticks the count is 5 and the interval
  is still set; the 61st tick sets the count to 6 and clears the interval.
\<close>

theorem animated_counter_reaches_target_witness:
  "double_round 6 = 6 \<and> (0::real) \<le> 6 \<and> (6::real) \<le> 2 powi 1023 \<and> 0 < ddiv 6 60 \<and>
   count (counter_run 6 60) \<le> count (counter_run 6 (Suc 60)) \<and>
   count (counter_run 6 60) = 5 \<and> interval_active (counter_run 6 60) \<and>
   count (counter_run 6 61) = 6 \<and> \<not> interval_active (counter_run 6 61) \<and>
   count (counter_run 6 1000) \<le> 6"
proof -
  have h: "double_round 6 = 6" "(0::real) \<le> 6" "(6::real) \<le> 2 powi 1023"
    "(6::real) = 0 \<or> 0 < ddiv 6 60"
    by (simp_all add: stats_values below_p2_1023)
  note inst = animated_counter_reaches_target [OF h]
  from inst have "count (counter_run 6 60) \<le> count (counter_run 6 (Suc 60))" by blast
  moreover from inst have "count (counter_run 6 1000) \<le> 6" by blast
  ultimately show ?thesis using h by (simp add: counter_run_6)
qed

subsection \<open>Preloader: passing over idle time\<close>

lemma least_None: "least xs = None \<Longrightarrow> xs = []"
  by (cases xs) (auto split: option.splits)

lemma least_Some: "least xs = Some m \<Longrightarrow> x \<in> set xs \<Longrightarrow> m \<le> x"
  by (induction xs arbitrary: m) (auto split: option.splits dest: least_None)

lemma externals_none:
  "\<forall>(t, e) \<in> set evs. t \<noteq> now s \<Longrightarrow> externals evs s = s"
  unfolding externals_def by (induction evs) auto

lemma externals_Nil [simp]: "externals [] s = s"
  by (simp add: externals_def)

lemma pending_mem:
  "skipTimer s = Some due \<Longrightarrow> due \<in> set (pending s)"
  "timeoutFallback s = Some (due, ph) \<Longrightarrow> due \<in> set (pending s)"
  "startTimer s = Some due \<Longrightarrow> due \<in> set (pending s)"
  "interval s = Some (due, tg, inc) \<Longrightarrow> due \<in> set (pending s)"
  "stageTimer s = Some due \<Longrightarrow> due \<in> set (pending s)"
  "assetsTimer s = Some due \<Longrightarrow> due \<in> set (pending s)"
  "exitTimer s = Some due \<Longrightarrow> due \<in> set (pending s)"
  "due \<in> set (completeTimers s) \<Longrightarrow> due \<in> set (pending s)"
  "unmountTimer s = Some due \<Longrightarrow> due \<in> set (pending s)"
  by (simp_all add: pending_def)

lemma fire_skipTimer_idle:
  "\<forall>due \<in> set (pending s). now s < due \<Longrightarrow> fire_skipTimer s = s"
  by (auto simp: fire_skipTimer_def split: option.splits dest!: pending_mem(1))

lemma fire_timeoutFallback_idle:
  "\<forall>due \<in> set (pending s). now s < due \<Longrightarrow> fire_timeoutFallback s = s"
  by (auto simp: fire_timeoutFallback_def split: option.splits dest!: pending_mem(2))

lemma fire_startTimer_idle:
  "\<forall>due \<in> set (pending s). now s < due \<Longrightarrow> fire_startTimer s = s"
  by (auto simp: fire_startTimer_def split: option.splits dest!: pending_mem(3))

lemma fire_interval_idle:
  "\<forall>due \<in> set (pending s). now s < due \<Longrightarrow> fire_interval delay s = s"
  by (auto simp: fire_interval_def split: option.splits dest!: pending_mem(4))

lemma fire_stageTimer_idle:
  "\<forall>due \<in> set (pending s). now s < due \<Longrightarrow> fire_stageTimer s = s"
  by (auto simp: fire_stageTimer_def split: option.splits dest!: pending_mem(5))

lemma fire_assetsTimer_idle:
  "\<forall>due \<in> set (pending s). now s < due \<Longrightarrow> fire_assetsTimer s = s"
  by (auto simp: fire_assetsTimer_def split: option.splits dest!: pending_mem(6))

lemma fire_exitTimer_idle:
  "\<forall>due \<in> set (pending s). now s < due \<Longrightarrow> fire_exitTimer s = s"
  by (auto simp: fire_exitTimer_def split: option.splits dest!: pending_mem(7))

lemma fire_complete_later:
  "\<forall>due \<in> set dues. now s < due \<Longrightarrow> fire_complete dues s = s"
  by (induction dues) auto

lemma fire_completeTimers_idle:
  "\<forall>due \<in> set (pending s). now s < due \<Longrightarrow> fire_completeTimers s = s"
  unfolding fire_completeTimers_def by (rule fire_complete_later) (simp add: pending_mem(8))

lemma fire_unmountTimer_idle:
  "\<forall>due \<in> set (pending s). now s < due \<Longrightarrow> fire_unmountTimer s = s"
  by (auto simp: fire_unmountTimer_def split: option.splits dest!: pending_mem(9))

lemma fire_due_idle:
  assumes "\<forall>due \<in> set (pending s). now s < due"
  shows "fire_due delay s = s"
  using assms
  by (simp add: fire_due_def fire_skipTimer_idle fire_timeoutFallback_idle
      fire_startTimer_idle fire_interval_idle fire_stageTimer_idle fire_assetsTimer_idle
      fire_exitTimer_idle fire_completeTimers_idle fire_unmountTimer_idle)

lemma pending_now [simp]: "pending (s\<lparr>now := t\<rparr>) = pending s"
  by (simp add: pending_def)

lemma step_ms_idle:
  assumes "\<forall>due \<in> set (upcoming evs s). now s + 1 < due"
  shows "step_ms delay evs s = s\<lparr>now := now s + 1\<rparr>"
proof -
  have "fire_due delay (s\<lparr>now := now s + 1\<rparr>) = s\<lparr>now := now s + 1\<rparr>"
    using assms by (intro fire_due_idle) (simp add: upcoming_def)
  moreover have "externals evs (s\<lparr>now := now s + 1\<rparr>) = s\<lparr>now := now s + 1\<rparr>"
    using assms by (intro externals_none) (force simp: upcoming_def)
  ultimately show ?thesis by (simp add: step_ms_def)
qed

lemma upcoming_now:
  "now s \<le> t \<Longrightarrow> set (upcoming evs (s\<lparr>now := t\<rparr>)) \<subseteq> set (upcoming evs s)"
  by (auto simp: upcoming_def)

lemma advance_idle:
  assumes "\<forall>due \<in> set (upcoming evs s). now s + n < due"
  shows "advance delay evs n s = s\<lparr>now := now s + n\<rparr>"
  using assms
proof (induction n)
  case 0
  show ?case by (simp add: advance_def)
next
  case (Suc n)
  have "\<forall>due \<in> set (upcoming evs s). now s + n < due"
    using Suc.prems by auto
  then have ih: "advance delay evs n s = s\<lparr>now := now s + n\<rparr>" by (rule Suc.IH)
  have "\<forall>due \<in> set (upcoming evs (s\<lparr>now := now s + n\<rparr>)). now s + n + 1 < due"
    using Suc.prems upcoming_now [of s "now s + n" evs] by auto
  then have "step_ms delay evs (s\<lparr>now := now s + n\<rparr>) = s\<lparr>now := now s + n + 1\<rparr>"
    using step_ms_idle [of evs "s\<lparr>now := now s + n\<rparr>" delay] by simp
  then show ?case using ih by (simp add: advance_def)
qed

lemma advance_add: "advance delay evs (m + n) s = advance delay evs n (advance delay evs m s)"
  by (simp add: advance_def add.commute [of m n] funpow_add)

lemma advance_Suc: "advance delay evs (Suc n) s = advance delay evs n (step_ms delay evs s)"
  by (simp add: advance_def funpow_swap1)

lemma advance_0 [simp]: "advance delay evs 0 s = s"
  by (simp add: advance_def)

lemma advance_next:
  "advance delay evs n s =
     (case least (upcoming evs s) of
        None \<Rightarrow> s\<lparr>now := now s + n\<rparr>
      | Some t \<Rightarrow>
          if t \<le> now s then
            (if n = 0 then s else advance delay evs (n - 1) (step_ms delay evs s))
          else if now s + n < t then s\<lparr>now := now s + n\<rparr>
          else advance delay evs (now s + n - t) (step_ms delay evs (s\<lparr>now := t - 1\<rparr>)))"
proof (cases "least (upcoming evs s)")
  case None
  then have "upcoming evs s = []" by (rule least_None)
  then show ?thesis using None advance_idle [of evs s n delay] by simp
next
  case (Some t)
  show ?thesis
  proof (cases "t \<le> now s")
    case True
    then show ?thesis using Some by (cases n) (simp_all add: advance_Suc)
  next
    case False
    note later = this
    show ?thesis
    proof (cases "now s + n < t")
      case True
      then have "\<forall>due \<in> set (upcoming evs s). now s + n < due"
        using least_Some [OF Some] by fastforce
      then show ?thesis using Some later True advance_idle [of evs s n delay] by simp
    next
      case False
      define k where "k = t - now s - 1"
      have n: "n = k + Suc (now s + n - t)" and t: "t - 1 = now s + k"
        using later False by (simp_all add: k_def)
      have "\<forall>due \<in> set (upcoming evs s). now s + k < due"
        using least_Some [OF Some] later by (fastforce simp: k_def)
      then have "advance delay evs k s = s\<lparr>now := now s + k\<rparr>"
        by (rule advance_idle)
      then have "advance delay evs n s =
          advance delay evs (now s + n - t) (step_ms delay evs (s\<lparr>now := t - 1\<rparr>))"
        by (subst n) (simp only: advance_add advance_Suc t)
      then show ?thesis using Some later False by simp
    qed
  qed
qed

text \<open>When nothing is due for \<open>d\<close> ms, the next millisecond is the first in which something happens.\<close>

lemma advance_jump:
  assumes "\<forall>due \<in> set (upcoming evs s). now s + d < due"
  shows "advance delay evs (Suc d) s = step_ms delay evs (s\<lparr>now := now s + d\<rparr>)"
proof -
  have "advance delay evs (d + 1) s = advance delay evs 1 (advance delay evs d s)"
    by (rule advance_add)
  then show ?thesis using advance_idle [OF assms, of delay] by (simp add: advance_Suc)
qed

text \<open>
  \<open>runStage\<close> with its local constants written out and \<open>fire_interval\<close> with the
  components of the interval read by projection, for the simplifier to compute a run:
  a rounded operation is then unfolded only once its operands are numbers.
\<close>

lemma runStage_unfold:
  "runStage s =
     (if currentStage s \<ge> length stages then
        (setPhase Complete s)\<lparr>assetsTimer := Some (now s + 400)\<rparr>
      else
        s\<lparr>interval := Some (now s + 16, fst (stages ! currentStage s),
            ddiv (dsub (fst (stages ! currentStage s)) (currentProgress s))
              (ddiv (snd (stages ! currentStage s)) 16))\<rparr>)"
  by (simp add: runStage_def split_beta)

lemma fire_interval_unfold:
  "fire_interval delay s =
     (case interval s of
        Some p \<Rightarrow>
          if fst p \<le> now s then intervalTick delay (fst (snd p)) (snd (snd p)) s else s
      | None \<Rightarrow> s)"
  by (simp add: fire_interval_def split: option.splits)

lemmas step_defs = mount_def upcoming_def pending_def step_ms_def fire_due_def
  fire_skipTimer_def fire_timeoutFallback_def fire_startTimer_def fire_interval_unfold
  fire_stageTimer_def fire_assetsTimer_def fire_exitTimer_def fire_unmountTimer_def
  fire_completeTimers_def
  setPhase_def setAssetsReady_def setProgress_def setShowSkip_def runStage_unfold
  intervalTick_def
  fallbackFired_def exitFired_def handleSkip_def onComplete_def unmount_def stages_def Let_def
  externals_def double_eval power_int_numeral power_int_numeral_neg_numeral

lemmas eval_defs = run_def step_defs

lemma run_add: "run delay evs (m + n) = advance delay evs n (run delay evs m)"
  by (simp add: run_def advance_add)

subsection \<open>Preloader: the stage table\<close>

lemma stage_cases: "k < 6 \<Longrightarrow> k = 0 \<or> k = Suc 0 \<or> k = 2 \<or> k = 3 \<or> k = 4 \<or> k = (5::nat)"
  by arith

lemma stage_table:
  "stage_target 0 = 15" "stage_target (Suc 0) = 35" "stage_target 2 = 55"
  "stage_target 3 = 75" "stage_target 4 = 90" "stage_target 5 = 100"
  "stage_duration 0 = 200" "stage_duration (Suc 0) = 400" "stage_duration 2 = 300"
  "stage_duration 3 = 500" "stage_duration 4 = 400" "stage_duration 5 = 200"
  "stage_prev 0 = 0" "stage_prev (Suc 0) = 15" "stage_prev 2 = 35"
  "stage_prev 3 = 55" "stage_prev 4 = 75" "stage_prev 5 = 90"
  by (simp_all add: stage_target_def stage_prev_def stage_duration_def stages_def)

text \<open>
  The increments are the doubles nearest to 6/5, 4/5, 16/15, 16/25, 3/5 and 4/5; the
  number of ticks of each stage is computed with them.
\<close>

lemma stage_increments:
  "stage_increment 0 = 5404319552844595 / 4503599627370496"
  "stage_increment (Suc 0) = 3602879701896397 / 4503599627370496"
  "stage_increment 2 = 4803839602528529 / 4503599627370496"
  "stage_increment 3 = 5764607523034235 / 9007199254740992"
  "stage_increment 4 = 5404319552844595 / 9007199254740992"
  "stage_increment 5 = 3602879701896397 / 4503599627370496"
  by (simp_all add: stage_increment_def stage_table double_eval power_int_numeral
      power_int_numeral_neg_numeral)

lemma ticks_until_numeral:
  "ticks_until (numeral n) cp increment target =
     (if target \<le> dadd cp increment then 1
      else Suc (ticks_until (pred_numeral n) (dadd cp increment) increment target))"
  by (simp add: numeral_eq_Suc)

lemma stage_ticks_table:
  "stage_ticks 0 = 13" "stage_ticks (Suc 0) = 25" "stage_ticks 2 = 19"
  "stage_ticks 3 = 32" "stage_ticks 4 = 26" "stage_ticks 5 = 13"
  by (simp_all add: stage_ticks_def stage_table stage_increments ticks_until_numeral
      double_eval power_int_numeral power_int_numeral_neg_numeral)

text \<open>
  What the count of ticks means: the accumulated value is below the target before the
  last tick of a stage and at or above it at the last tick.
\<close>

lemma stage_acc_0: "stage_acc k 0 = stage_prev k"
  by (simp add: stage_acc_def)

lemma stage_acc_Suc: "stage_acc k (Suc j) = dadd (stage_acc k j) (stage_increment k)"
  by (simp add: stage_acc_def)

lemma accumulate_shift:
  "accumulate (dadd cp increment) increment j = accumulate cp increment (Suc j)"
  by (induction j) simp_all

lemma ticks_until_spec:
  "ticks_until fuel cp increment target = n \<Longrightarrow> n < fuel \<Longrightarrow>
   (\<forall>j. 0 < j \<and> j < n \<longrightarrow> accumulate cp increment j < target) \<and>
   target \<le> accumulate cp increment n"
proof (induction fuel arbitrary: cp n)
  case 0
  then show ?case by simp
next
  case (Suc fuel)
  show ?case
  proof (cases "target \<le> dadd cp increment")
    case True
    with Suc.prems have "n = 1" by simp
    with True show ?thesis by simp
  next
    case False
    define m where "m = ticks_until fuel (dadd cp increment) increment target"
    have n: "n = Suc m" using Suc.prems(1) False by (simp add: m_def)
    then have "m < fuel" using Suc.prems(2) by simp
    with Suc.IH [of "dadd cp increment" m] m_def
    have ih: "\<forall>j. 0 < j \<and> j < m \<longrightarrow> accumulate cp increment (Suc j) < target"
      "target \<le> accumulate cp increment (Suc m)"
      by (simp_all add: accumulate_shift)
    have "accumulate cp increment j < target" if "0 < j" "j < n" for j
    proof (cases j)
      case 0
      with that show ?thesis by simp
    next
      case (Suc i)
      show ?thesis
      proof (cases i)
        case 0
        with Suc False show ?thesis by simp
      next
        case (Suc i')
        with \<open>j = Suc i\<close> that n have "0 < Suc i' \<and> Suc i' < m" by simp
        with ih(1) have "accumulate cp increment (Suc (Suc i')) < target" by blast
        with Suc \<open>j = Suc i\<close> show ?thesis by simp
      qed
    qed
    with ih(2) n show ?thesis by simp
  qed
qed

lemma stage_fuel: "k < 6 \<Longrightarrow> stage_ticks k < nat \<lfloor>stage_duration k\<rfloor>"
  using stage_cases [of k] by (auto simp: stage_table stage_ticks_table)

lemma stage_below:
  assumes "k < 6" and "j < stage_ticks k"
  shows "stage_acc k j < stage_target k"
proof (cases "j = 0")
  case True
  then show ?thesis
    using stage_cases [OF assms(1)] by (auto simp: stage_acc_0 stage_table)
next
  case False
  with ticks_until_spec [OF stage_ticks_def [symmetric] stage_fuel [OF assms(1)]] assms(2)
  show ?thesis by (simp add: stage_acc_def)
qed

lemma stage_reached:
  assumes "k < 6"
  shows "stage_target k \<le> stage_acc k (stage_ticks k)"
  using ticks_until_spec [OF stage_ticks_def [symmetric] stage_fuel [OF assms]]
  by (simp add: stage_acc_def)

subsection \<open>The skip timer does not influence the rest of an undisturbed run\<close>

lemma core_now: "core (s\<lparr>now := t\<rparr>) = (core s)\<lparr>now := t\<rparr>"
  by (simp add: core_def)

lemma core_fire_skipTimer: "core (fire_skipTimer s) = core s"
  by (simp add: core_def fire_skipTimer_def setShowSkip_def split: option.splits)

lemma fire_skipTimer_core: "fire_skipTimer (core s) = core s"
  by (simp add: core_def fire_skipTimer_def)

lemma core_fire_timeoutFallback: "core (fire_timeoutFallback s) = fire_timeoutFallback (core s)"
  by (simp add: core_def fire_timeoutFallback_def fallbackFired_def setPhase_def
      split: option.splits)

lemma core_runStage: "core (runStage s) = runStage (core s)"
  by (simp add: core_def runStage_def setPhase_def Let_def split_beta)

lemma core_fire_startTimer: "core (fire_startTimer s) = fire_startTimer (core s)"
proof -
  have "core (s\<lparr>startTimer := None\<rparr>) = (core s)\<lparr>startTimer := None\<rparr>"
    by (simp add: core_def)
  moreover have "startTimer (core s) = startTimer s" "now (core s) = now s"
    by (simp_all add: core_def)
  ultimately show ?thesis
    by (simp add: fire_startTimer_def core_runStage split: option.splits)
qed

lemma core_fire_interval: "core (fire_interval delay s) = fire_interval delay (core s)"
  by (simp add: core_def fire_interval_def intervalTick_def setProgress_def Let_def
      split: option.splits)

lemma core_fire_stageTimer: "core (fire_stageTimer s) = fire_stageTimer (core s)"
proof -
  have "core (s\<lparr>stageTimer := None\<rparr>) = (core s)\<lparr>stageTimer := None\<rparr>"
    by (simp add: core_def)
  moreover have "stageTimer (core s) = stageTimer s" "now (core s) = now s"
    by (simp_all add: core_def)
  ultimately show ?thesis
    by (simp add: fire_stageTimer_def core_runStage split: option.splits)
qed

lemma core_fire_assetsTimer: "core (fire_assetsTimer s) = fire_assetsTimer (core s)"
  by (simp add: core_def fire_assetsTimer_def setAssetsReady_def split: option.splits)

lemma core_fire_exitTimer: "core (fire_exitTimer s) = fire_exitTimer (core s)"
  by (simp add: core_def fire_exitTimer_def exitFired_def setPhase_def split: option.splits)

lemma core_onComplete: "core (onComplete s) = onComplete (core s)"
  by (simp add: core_def onComplete_def Let_def)

lemma core_fire_complete: "core (fire_complete dues s) = fire_complete dues (core s)"
proof (induction dues arbitrary: s)
  case Nil
  show ?case by simp
next
  case (Cons due dues)
  have "core (s\<lparr>completeTimers := remove1 due (completeTimers s)\<rparr>) =
      (core s)\<lparr>completeTimers := remove1 due (completeTimers (core s))\<rparr>"
    by (simp add: core_def)
  moreover have "now (core s) = now s" by (simp add: core_def)
  ultimately show ?case by (simp add: Cons.IH core_onComplete)
qed

lemma core_fire_completeTimers: "core (fire_completeTimers s) = fire_completeTimers (core s)"
proof -
  have "completeTimers (core s) = completeTimers s" by (simp add: core_def)
  then show ?thesis by (simp add: fire_completeTimers_def core_fire_complete)
qed

lemma core_fire_unmountTimer: "core (fire_unmountTimer s) = fire_unmountTimer (core s)"
  by (simp add: core_def fire_unmountTimer_def unmount_def split: option.splits)

lemma now_core: "now (core s) = now s"
  by (simp add: core_def)

lemma fire_skipTimer_core_now: "fire_skipTimer ((core s)\<lparr>now := t\<rparr>) = (core s)\<lparr>now := t\<rparr>"
  by (simp add: core_def fire_skipTimer_def)

lemma core_step_ms: "core (step_ms delay [] s) = step_ms delay [] (core s)"
  by (simp add: step_ms_def fire_due_def core_fire_unmountTimer core_fire_completeTimers
      core_fire_exitTimer core_fire_assetsTimer core_fire_stageTimer core_fire_interval
      core_fire_startTimer core_fire_timeoutFallback core_fire_skipTimer core_now
      now_core fire_skipTimer_core_now)

lemma core_advance: "core (advance delay [] n s) = advance delay [] n (core s)"
  by (induction n) (simp_all add: advance_def core_step_ms)

lemmas fire_defs = step_ms_def fire_due_def
  fire_skipTimer_def fire_timeoutFallback_def fire_startTimer_def fire_interval_def
  fire_stageTimer_def fire_assetsTimer_def fire_exitTimer_def fire_unmountTimer_def
  fire_completeTimers_def

lemma intervalTick_below:
  assumes "\<not> target \<le> dadd (currentProgress s) inc" and "mounted s"
  shows "intervalTick delay target inc s =
    s\<lparr>progress := of_int \<lfloor>dadd (currentProgress s) inc\<rfloor>,
      currentProgress := dadd (currentProgress s) inc,
      interval := Some (now s + 16, target, inc)\<rparr>"
  using assms by (simp add: intervalTick_def setProgress_def Let_def)

lemma intervalTick_reached:
  assumes "target \<le> dadd (currentProgress s) inc" and "mounted s"
  shows "intervalTick delay target inc s =
    s\<lparr>progress := target, currentStage := currentStage s + 1, currentProgress := target,
      interval := None, stageTimer := Some (now s + delay (currentStage s))\<rparr>"
  using assms by (simp add: intervalTick_def setProgress_def Let_def)

lemma tick_step:
  assumes k: "k < 6" and j: "Suc j < stage_ticks k" and T: "T + 16 * j + 16 < 10000"
  shows "advance delay [] 16 (ticking T k j) = ticking T k (Suc j)"
proof -
  have below: "\<not> stage_target k \<le> dadd (stage_acc k j) (stage_increment k)"
    using stage_below [OF k j] by (simp add: stage_acc_Suc)
  have "advance delay [] (Suc 15) (ticking T k j) =
      step_ms delay [] ((ticking T k j)\<lparr>now := now (ticking T k j) + 15\<rparr>)"
    using T by (intro advance_jump) (simp add: upcoming_def pending_def ticking_def)
  also have "\<dots> = ticking T k (Suc j)"
    using T below by (simp add: fire_defs ticking_def intervalTick_below stage_acc_Suc)
  finally show ?thesis by simp
qed

lemma tick_last:
  assumes k: "k < 6" and j: "Suc j = stage_ticks k" and T: "T + 16 * j + 16 < 10000"
    and d: "0 < delay k"
  shows "advance delay [] 16 (ticking T k j) =
    pausing (T + 16 * stage_ticks k) k (T + 16 * stage_ticks k + delay k)"
proof -
  have reached: "stage_target k \<le> dadd (stage_acc k j) (stage_increment k)"
    using stage_reached [OF k] j [symmetric] by (simp add: stage_acc_Suc)
  have "advance delay [] (Suc 15) (ticking T k j) =
      step_ms delay [] ((ticking T k j)\<lparr>now := now (ticking T k j) + 15\<rparr>)"
    using T by (intro advance_jump) (simp add: upcoming_def pending_def ticking_def)
  also have "\<dots> = pausing (T + 16 * stage_ticks k) k (T + 16 * stage_ticks k + delay k)"
    using T reached d
    by (simp add: fire_defs ticking_def pausing_def intervalTick_reached j [symmetric])
  finally show ?thesis by simp
qed

lemma ticks:
  assumes k: "k < 6"
  shows "j < stage_ticks k \<Longrightarrow> T + 16 * j < 10000 \<Longrightarrow>
    advance delay [] (16 * j) (ticking T k 0) = ticking T k j"
proof (induction j)
  case 0
  show ?case by simp
next
  case (Suc j)
  then have ih: "advance delay [] (16 * j) (ticking T k 0) = ticking T k j" by simp
  have "advance delay [] (16 * j + 16) (ticking T k 0) =
      advance delay [] 16 (advance delay [] (16 * j) (ticking T k 0))"
    by (rule advance_add)
  also have "\<dots> = ticking T k (Suc j)"
    unfolding ih using Suc.prems by (intro tick_step [OF k]) simp_all
  finally show ?case by (simp add: add.commute [of 16])
qed

lemma length_stages: "length stages = 6"
  by (simp add: stages_def)

lemma runStage_next:
  assumes "currentStage s < 6"
  shows "runStage s =
    s\<lparr>interval := Some (now s + 16, stage_target (currentStage s),
      ddiv (dsub (stage_target (currentStage s)) (currentProgress s))
        (ddiv (stage_duration (currentStage s)) 16))\<rparr>"
  using assms
  by (simp add: runStage_def length_stages stage_target_def stage_duration_def split_beta)

lemma pause_next:
  assumes k: "Suc k < 6" and d: "0 < d" and T: "T + d < 10000"
  shows "advance delay [] d (pausing T k (T + d)) = ticking (T + d) (Suc k) 0"
proof -
  obtain d' where d': "d = Suc d'" using d by (cases d) simp_all
  have "advance delay [] (Suc d') (pausing T k (T + d)) =
      step_ms delay [] ((pausing T k (T + d))\<lparr>now := now (pausing T k (T + d)) + d'\<rparr>)"
    using T by (intro advance_jump) (simp add: upcoming_def pending_def pausing_def d')
  also have "\<dots> = ticking (T + d) (Suc k) 0"
    using T k
    by (simp add: fire_defs pausing_def ticking_def d' runStage_next stage_increment_def
        stage_prev_def stage_acc_0)
  finally show ?thesis by (simp add: d')
qed

lemma pause_complete:
  assumes d: "0 < d" and T: "T + d < 10000"
  shows "advance delay [] d (pausing T 5 (T + d)) = completed (T + d)"
proof -
  obtain d' where d': "d = Suc d'" using d by (cases d) simp_all
  have "advance delay [] (Suc d') (pausing T 5 (T + d)) =
      step_ms delay [] ((pausing T 5 (T + d))\<lparr>now := now (pausing T 5 (T + d)) + d'\<rparr>)"
    using T by (intro advance_jump) (simp add: upcoming_def pending_def pausing_def d')
  also have "\<dots> = completed (T + d)"
    using T
    by (simp add: fire_defs pausing_def completed_def d' runStage_def length_stages
        setPhase_def stage_table)
  finally show ?thesis by (simp add: d')
qed

subsection \<open>The undisturbed run, stage by stage\<close>

lemma stage_ticks_le: "k < 6 \<Longrightarrow> stage_ticks k \<le> 32"
  using stage_cases [of k] by (auto simp: stage_ticks_table)

lemma stage_ticks_pos: "k < 6 \<Longrightarrow> 0 < stage_ticks k"
  using stage_cases [of k] by (auto simp: stage_ticks_table)

lemma stage_start_bound:
  assumes "\<forall>i<6. delay i < 150"
  shows "k \<le> 6 \<Longrightarrow> stage_start delay k \<le> 300 + 661 * k"
proof (induction k)
  case 0
  show ?case by simp
next
  case (Suc k)
  then have "k < 6" by simp
  with assms stage_ticks_le [of k] have "16 * stage_ticks k + delay k \<le> 661"
    by (auto dest!: spec [of _ k])
  with Suc show ?case by simp
qed

lemma start_stage:
  "advance delay [] 300 (core mount) = ticking 300 0 0"
proof -
  have "advance delay [] (Suc 299) (core mount) =
      step_ms delay [] ((core mount)\<lparr>now := now (core mount) + 299\<rparr>)"
    by (intro advance_jump) (simp add: upcoming_def pending_def core_def mount_def)
  also have "\<dots> = ticking 300 0 0"
    by (simp add: fire_defs core_def mount_def ticking_def runStage_next stage_increment_def
        stage_prev_def stage_acc_0)
  finally show ?thesis by simp
qed

lemma stage_step:
  assumes k: "k < 6" and d: "0 < delay k" and T: "T + 16 * stage_ticks k + delay k < 10000"
  shows "advance delay [] (16 * stage_ticks k) (ticking T k 0) =
      pausing (T + 16 * stage_ticks k) k (T + 16 * stage_ticks k + delay k)"
proof -
  obtain j where j: "stage_ticks k = Suc j"
    using stage_ticks_pos [OF k] by (cases "stage_ticks k") simp_all
  have "advance delay [] (16 * j + 16) (ticking T k 0) =
      advance delay [] 16 (advance delay [] (16 * j) (ticking T k 0))"
    by (rule advance_add)
  also have "advance delay [] (16 * j) (ticking T k 0) = ticking T k j"
    using T j by (intro ticks [OF k]) simp_all
  also have "advance delay [] 16 (ticking T k j) =
      pausing (T + 16 * stage_ticks k) k (T + 16 * stage_ticks k + delay k)"
    using T j d by (intro tick_last [OF k]) simp_all
  finally show ?thesis by (simp add: j add.commute [of 16])
qed

lemma stage_begin:
  assumes delays: "\<forall>i<6. 50 \<le> delay i \<and> delay i < 150"
  shows "k < 6 \<Longrightarrow>
    advance delay [] (stage_start delay k) (core mount) = ticking (stage_start delay k) k 0"
proof (induction k)
  case 0
  show ?case by (simp add: start_stage)
next
  case (Suc k)
  then have k: "k < 6" and ih:
    "advance delay [] (stage_start delay k) (core mount) = ticking (stage_start delay k) k 0"
    by simp_all
  let ?T = "stage_start delay k"
  have d: "0 < delay k" "delay k < 150" using delays k by (auto dest!: spec [of _ k])
  have "stage_start delay (Suc k) \<le> 300 + 661 * Suc k"
    using delays Suc.prems by (intro stage_start_bound) auto
  then have T: "?T + 16 * stage_ticks k + delay k < 10000" using Suc.prems by simp
  have "advance delay [] (stage_start delay (Suc k)) (core mount) =
      advance delay [] (delay k) (advance delay [] (16 * stage_ticks k)
        (advance delay [] ?T (core mount)))"
    by (simp add: advance_add)
  also have "\<dots> = advance delay [] (delay k)
      (pausing (?T + 16 * stage_ticks k) k (?T + 16 * stage_ticks k + delay k))"
    unfolding ih using stage_step [of k delay ?T] k d(1) T by simp
  also have "\<dots> = ticking (?T + 16 * stage_ticks k + delay k) (Suc k) 0"
    using T d Suc.prems by (intro pause_next) simp_all
  finally show ?case by simp
qed

lemma stage_end_bound:
  assumes delays: "\<forall>i<6. 50 \<le> delay i \<and> delay i < 150" and k: "k < 6"
  shows "stage_start delay k + 16 * stage_ticks k + delay k < 10000"
proof -
  have "stage_start delay (Suc k) \<le> 300 + 661 * Suc k"
    using delays k by (intro stage_start_bound) auto
  then show ?thesis using k by simp
qed

lemma at_tick:
  assumes delays: "\<forall>i<6. 50 \<le> delay i \<and> delay i < 150" and k: "k < 6"
    and j: "j < stage_ticks k"
  shows "advance delay [] (stage_start delay k + 16 * j) (core mount) =
    ticking (stage_start delay k) k j"
proof -
  have "stage_start delay k + 16 * j < 10000"
    using stage_end_bound [OF delays k] j by simp
  then have "advance delay [] (16 * j) (ticking (stage_start delay k) k 0) =
      ticking (stage_start delay k) k j"
    using j by (intro ticks [OF k]) simp_all
  then show ?thesis by (simp add: advance_add stage_begin [OF delays k])
qed

lemma at_pause:
  assumes delays: "\<forall>i<6. 50 \<le> delay i \<and> delay i < 150" and k: "k < 6"
  shows "advance delay [] (stage_start delay k + 16 * stage_ticks k) (core mount) =
    pausing (stage_start delay k + 16 * stage_ticks k) k (stage_start delay (Suc k))"
proof -
  have d: "0 < delay k" using delays k by (auto dest!: spec [of _ k])
  show ?thesis
    using stage_step [of k delay "stage_start delay k"] k d stage_end_bound [OF delays k]
    by (simp add: advance_add stage_begin [OF delays k])
qed

lemma pausing_idle:
  assumes "T + d < due" and "due < 10000"
  shows "advance delay [] d (pausing T k due) = (pausing T k due)\<lparr>now := T + d\<rparr>"
proof -
  have "advance delay [] d (pausing T k due) =
      (pausing T k due)\<lparr>now := now (pausing T k due) + d\<rparr>"
    using assms by (intro advance_idle) (simp add: upcoming_def pending_def pausing_def)
  then show ?thesis by (simp add: pausing_def)
qed

lemma stage_start_6:
  "stage_start delay 6 = stage_start delay 5 + 16 * stage_ticks 5 + delay 5"
  using stage_start.simps(2) [of delay 5] by simp

lemma at_complete:
  assumes delays: "\<forall>i<6. 50 \<le> delay i \<and> delay i < 150"
  shows "advance delay [] (stage_start delay 6) (core mount) =
    completed (stage_start delay 6)"
proof -
  have d: "0 < delay 5" using delays by (auto dest!: spec [of _ 5])
  have "advance delay [] (stage_start delay 6) (core mount) =
      advance delay [] (delay 5)
        (advance delay [] (stage_start delay 5 + 16 * stage_ticks 5) (core mount))"
    by (simp only: stage_start_6 advance_add)
  also have "\<dots> = advance delay [] (delay 5)
      (pausing (stage_start delay 5 + 16 * stage_ticks 5) 5
         (stage_start delay 5 + 16 * stage_ticks 5 + delay 5))"
    using at_pause [OF delays, of 5] by (simp add: stage_start_6)
  also have "\<dots> = completed (stage_start delay 5 + 16 * stage_ticks 5 + delay 5)"
    using d stage_end_bound [OF delays, of 5] by (intro pause_complete) simp_all
  finally show ?thesis by (simp add: stage_start_6)
qed

lemma before_complete:
  assumes delays: "\<forall>i<6. 50 \<le> delay i \<and> delay i < 150"
  shows "advance delay [] (stage_start delay 6 - 1) (core mount) =
    (pausing (stage_start delay 5 + 16 * stage_ticks 5) 5 (stage_start delay 6))
      \<lparr>now := stage_start delay 6 - 1\<rparr>"
proof -
  have d: "0 < delay 5" using delays by (auto dest!: spec [of _ 5])
  then have split: "stage_start delay 6 - 1 =
      (stage_start delay 5 + 16 * stage_ticks 5) + (delay 5 - 1)"
    by (simp add: stage_start_6)
  have "advance delay [] (delay 5 - 1)
      (pausing (stage_start delay 5 + 16 * stage_ticks 5) 5 (stage_start delay 6)) =
    (pausing (stage_start delay 5 + 16 * stage_ticks 5) 5 (stage_start delay 6))
      \<lparr>now := stage_start delay 5 + 16 * stage_ticks 5 + (delay 5 - 1)\<rparr>"
    using d stage_end_bound [OF delays, of 5]
    by (intro pausing_idle) (simp_all add: stage_start_6)
  moreover have "advance delay [] (stage_start delay 6 - 1) (core mount) =
      advance delay [] (delay 5 - 1)
        (advance delay [] (stage_start delay 5 + 16 * stage_ticks 5) (core mount))"
    by (subst split) (rule advance_add)
  ultimately show ?thesis
    using at_pause [OF delays, of 5] d by (simp add: stage_start_6)
qed

subsection \<open>From Complete to the callback\<close>

lemmas handler_defs = setPhase_def setAssetsReady_def setProgress_def setShowSkip_def
  onComplete_def unmount_def fallbackFired_def exitFired_def handleSkip_def Let_def

lemma completed_idle:
  "d < 400 \<Longrightarrow> advance delay [] d (completed T) = (completed T)\<lparr>now := T + d\<rparr>"
  using advance_idle [of "[]" "completed T" d delay]
  by (simp add: upcoming_def pending_def completed_def)

lemma completed_assets: "advance delay [] 400 (completed T) = assets_ready T"
proof -
  have "advance delay [] (Suc 399) (completed T) =
      step_ms delay [] ((completed T)\<lparr>now := now (completed T) + 399\<rparr>)"
    by (intro advance_jump) (simp add: upcoming_def pending_def completed_def)
  also have "\<dots> = assets_ready T"
    by (simp add: fire_defs handler_defs completed_def assets_ready_def)
  finally show ?thesis by simp
qed

lemma assets_ready_idle:
  "d < 600 \<Longrightarrow> advance delay [] d (assets_ready T) = (assets_ready T)\<lparr>now := T + 400 + d\<rparr>"
  using advance_idle [of "[]" "assets_ready T" d delay]
  by (simp add: upcoming_def pending_def completed_def assets_ready_def)

lemma assets_ready_exit: "advance delay [] 600 (assets_ready T) = exiting T"
proof -
  have "advance delay [] (Suc 599) (assets_ready T) =
      step_ms delay [] ((assets_ready T)\<lparr>now := now (assets_ready T) + 599\<rparr>)"
    by (intro advance_jump) (simp add: upcoming_def pending_def completed_def assets_ready_def)
  also have "\<dots> = exiting T"
    by (simp add: fire_defs handler_defs completed_def assets_ready_def exiting_def)
  finally show ?thesis by simp
qed

lemma exiting_idle:
  "d < 800 \<Longrightarrow> advance delay [] d (exiting T) = (exiting T)\<lparr>now := T + 1000 + d\<rparr>"
  using advance_idle [of "[]" "exiting T" d delay]
  by (simp add: upcoming_def pending_def completed_def assets_ready_def exiting_def)

lemma exiting_finished: "advance delay [] 800 (exiting T) = finished T"
proof -
  have "advance delay [] (Suc 799) (exiting T) =
      step_ms delay [] ((exiting T)\<lparr>now := now (exiting T) + 799\<rparr>)"
    by (intro advance_jump)
      (simp add: upcoming_def pending_def completed_def assets_ready_def exiting_def)
  also have "\<dots> = finished T"
    by (simp add: fire_defs handler_defs completed_def assets_ready_def exiting_def
        finished_def)
  finally show ?thesis by simp
qed

lemma finished_idle:
  "d < 500 \<Longrightarrow> advance delay [] d (finished T) = (finished T)\<lparr>now := T + 1800 + d\<rparr>"
  using advance_idle [of "[]" "finished T" d delay]
  by (simp add: upcoming_def pending_def completed_def assets_ready_def exiting_def
      finished_def)

lemma finished_unmounted: "advance delay [] 500 (finished T) = unmounted T"
proof -
  have "advance delay [] (Suc 499) (finished T) =
      step_ms delay [] ((finished T)\<lparr>now := now (finished T) + 499\<rparr>)"
    by (intro advance_jump)
      (simp add: upcoming_def pending_def completed_def assets_ready_def exiting_def
        finished_def)
  also have "\<dots> = unmounted T"
    by (simp add: fire_defs handler_defs completed_def assets_ready_def exiting_def
        finished_def unmounted_def)
  finally show ?thesis by simp
qed

lemma unmounted_idle:
  "advance delay [] d (unmounted T) = (unmounted T)\<lparr>now := T + 2300 + d\<rparr>"
  using advance_idle [of "[]" "unmounted T" d delay]
  by (simp add: upcoming_def pending_def completed_def assets_ready_def exiting_def
      finished_def unmounted_def)

lemma completions_after:
  "completions (advance delay [] (1800 + d) (completed T)) = [T + 1800]"
proof -
  have fin: "advance delay [] 1800 (completed T) = finished T"
    using advance_add [of delay "[]" 400 1400 "completed T"]
      advance_add [of delay "[]" 600 800 "assets_ready T"]
    by (simp add: completed_assets assets_ready_exit exiting_finished)
  show ?thesis
  proof (cases "d < 500")
    case True
    then have "advance delay [] d (finished T) = (finished T)\<lparr>now := T + 1800 + d\<rparr>"
      by (rule finished_idle)
    then show ?thesis by (simp add: advance_add fin) (simp add: finished_def)
  next
    case False
    then have d: "d = 500 + (d - 500)" by simp
    have "advance delay [] d (finished T) = (unmounted T)\<lparr>now := T + 2300 + (d - 500)\<rparr>"
      by (subst d) (simp only: advance_add finished_unmounted unmounted_idle)
    then show ?thesis by (simp add: advance_add fin) (simp add: unmounted_def finished_def)
  qed
qed

subsection \<open>Preloader: the undisturbed run\<close>

text \<open>
  Claim C5 as stated fails: what grows by the constant increment is the accumulated
  \<open>currentProgress\<close>; the displayed progress is \<open>Math.floor\<close> of it. In the first
  stage the increment is the double nearest to 6/5 and the first tick displays 1; the
  tenth tick (at 460 ms) displays 11, because ten rounded additions give a sum just below
  12; in the second stage the increment is the double nearest to 4/5 and the first tick
  (at 574 ms, from 15) still displays 15.
\<close>

theorem displayed_progress_counterexample:
  "interval (run (\<lambda>_. 50) [] 300) = Some (316, 15, 5404319552844595 / 4503599627370496) \<and>
   progress (run (\<lambda>_. 50) [] 300) = 0 \<and>
   progress (run (\<lambda>_. 50) [] 316) = 1 \<and>
   currentProgress (run (\<lambda>_. 50) [] 460) < 12 \<and>
   progress (run (\<lambda>_. 50) [] 460) = 11 \<and>
   interval (run (\<lambda>_. 50) [] 558) = Some (574, 35, 3602879701896397 / 4503599627370496) \<and>
   progress (run (\<lambda>_. 50) [] 558) = 15 \<and>
   progress (run (\<lambda>_. 50) [] 574) = 15"
  by (simp add: advance_next eval_defs)

lemma core_fields:
  "phase (core s) = phase s" "progress (core s) = progress s"
  "currentProgress (core s) = currentProgress s" "assetsReady (core s) = assetsReady s"
  "completions (core s) = completions s" "interval (core s) = interval s"
  by (simp_all add: core_def)

lemma run_core: "core (run delay [] t) = advance delay [] t (core mount)"
  by (simp add: run_def core_advance)

lemma run_fields:
  "phase (run delay [] t) = phase (advance delay [] t (core mount))"
  "progress (run delay [] t) = progress (advance delay [] t (core mount))"
  "currentProgress (run delay [] t) = currentProgress (advance delay [] t (core mount))"
  "assetsReady (run delay [] t) = assetsReady (advance delay [] t (core mount))"
  "completions (run delay [] t) = completions (advance delay [] t (core mount))"
  "interval (run delay [] t) = interval (advance delay [] t (core mount))"
  using core_fields [of "run delay [] t"] by (simp_all add: run_core)

lemma stage_tick_fields:
  assumes delays: "\<forall>k<6. 50 \<le> delay k \<and> delay k < 150" and k: "k < 6"
    and j: "1 \<le> j" "j \<le> stage_ticks k"
  shows "(j < stage_ticks k) = (stage_acc k j < stage_target k) \<and>
    currentProgress (run delay [] (stage_start delay k + 16 * j)) =
      (if j < stage_ticks k then stage_acc k j else stage_target k) \<and>
    progress (run delay [] (stage_start delay k + 16 * j)) =
      (if j < stage_ticks k then of_int \<lfloor>stage_acc k j\<rfloor> else stage_target k)"
proof (cases "j < stage_ticks k")
  case True
  from at_tick [OF delays k True] j(1) stage_below [OF k True] True
  show ?thesis by (simp add: run_fields ticking_def)
next
  case False
  then have eq: "j = stage_ticks k" using j(2) by simp
  from at_pause [OF delays k] stage_reached [OF k]
  show ?thesis by (simp add: run_fields pausing_def eq)
qed

lemma stage_start_field:
  assumes delays: "\<forall>k<6. 50 \<le> delay k \<and> delay k < 150" and k: "k < 6"
  shows "currentProgress (run delay [] (stage_start delay k)) = stage_prev k \<and>
    interval (run delay [] (stage_start delay k)) =
      Some (stage_start delay k + 16, stage_target k, stage_increment k)"
  using stage_begin [OF delays k] by (simp add: run_fields ticking_def stage_acc_0)

text \<open>
  Claim C5, amended. In every run that no outside event disturbs (no skip, no render of
  \<open>App\<close>), whatever delays between 50 and 150 ms are drawn: stage \<open>k\<close> starts with
  \<open>currentProgress\<close> at the target of the stage before it and sets an interval with the
  constant increment \<open>(target - currentProgress) / (duration / 16)\<close>, computed in double
  arithmetic; every 16 ms the accumulated \<open>currentProgress\<close> grows by that increment, the
  sum being rounded to a double (\<open>stage_acc k j\<close> after \<open>j\<close> ticks), and the displayed
  progress is its floor, as long as the accumulated value is below the target; at the
  first tick at which it reaches or exceeds the target, both are set exactly to the
  target. The six stages take 13, 25, 19, 32, 26 and 13 ticks. After the pause that
  follows the last stage the phase becomes \<open>Complete\<close>; \<open>assetsReady\<close> becomes true 400 ms
  later, the phase becomes \<open>Exit\<close> 600 ms after that, and the completion callback is
  called 800 ms after that, and never again.
\<close>

theorem preloader_undisturbed_run:
  assumes delays: "\<forall>k<6. 50 \<le> delay k \<and> delay k < 150"
  shows "(\<forall>k<6. currentProgress (run delay [] (stage_start delay k)) = stage_prev k \<and>
           interval (run delay [] (stage_start delay k)) =
             Some (stage_start delay k + 16, stage_target k, stage_increment k) \<and>
           stage_acc k 0 = stage_prev k \<and>
           (\<forall>j. stage_acc k (Suc j) = dadd (stage_acc k j) (stage_increment k)) \<and>
           (\<forall>j. 1 \<le> j \<and> j \<le> stage_ticks k \<longrightarrow>
              (j < stage_ticks k) = (stage_acc k j < stage_target k) \<and>
              currentProgress (run delay [] (stage_start delay k + 16 * j)) =
                (if j < stage_ticks k then stage_acc k j else stage_target k) \<and>
              progress (run delay [] (stage_start delay k + 16 * j)) =
                (if j < stage_ticks k then of_int \<lfloor>stage_acc k j\<rfloor>
                 else stage_target k))) \<and>
         map stage_ticks [0, 1, 2, 3, 4, 5] = [13, 25, 19, 32, 26, 13] \<and>
         phase (run delay [] (stage_start delay 6 - 1)) = Loading \<and>
         phase (run delay [] (stage_start delay 6)) = Complete \<and>
         \<not> assetsReady (run delay [] (stage_start delay 6 + 399)) \<and>
         assetsReady (run delay [] (stage_start delay 6 + 400)) \<and>
         phase (run delay [] (stage_start delay 6 + 999)) = Complete \<and>
         phase (run delay [] (stage_start delay 6 + 1000)) = Exit \<and>
         completions (run delay [] (stage_start delay 6 + 1799)) = [] \<and>
         (\<forall>t \<ge> stage_start delay 6 + 1800.
            completions (run delay [] t) = [stage_start delay 6 + 1800])"
proof -
  let ?T = "stage_start delay 6"
  have at: "advance delay [] (?T + d) (core mount) = advance delay [] d (completed ?T)" for d
    by (simp add: advance_add at_complete [OF delays])
  have stages: "\<forall>k<6. currentProgress (run delay [] (stage_start delay k)) = stage_prev k \<and>
      interval (run delay [] (stage_start delay k)) =
        Some (stage_start delay k + 16, stage_target k, stage_increment k) \<and>
      stage_acc k 0 = stage_prev k \<and>
      (\<forall>j. stage_acc k (Suc j) = dadd (stage_acc k j) (stage_increment k)) \<and>
      (\<forall>j. 1 \<le> j \<and> j \<le> stage_ticks k \<longrightarrow>
         (j < stage_ticks k) = (stage_acc k j < stage_target k) \<and>
         currentProgress (run delay [] (stage_start delay k + 16 * j)) =
           (if j < stage_ticks k then stage_acc k j else stage_target k) \<and>
         progress (run delay [] (stage_start delay k + 16 * j)) =
           (if j < stage_ticks k then of_int \<lfloor>stage_acc k j\<rfloor>
            else stage_target k))"
    using stage_tick_fields [OF delays] stage_start_field [OF delays] stage_acc_0 stage_acc_Suc
    by blast
  have ticks: "map stage_ticks [0, 1, 2, 3, 4, 5] = [13, 25, 19, 32, 26, 13]"
    by (simp add: stage_ticks_table)
  have p0: "phase (run delay [] (?T - 1)) = Loading"
    using before_complete [OF delays] by (simp add: run_fields pausing_def)
  have p1: "phase (run delay [] ?T) = Complete"
    by (simp add: run_fields at_complete [OF delays] completed_def)
  have a0: "\<not> assetsReady (run delay [] (?T + 399))"
    by (simp add: run_fields at completed_idle) (simp add: completed_def)
  have a1: "assetsReady (run delay [] (?T + 400))"
    by (simp add: run_fields at completed_assets) (simp add: assets_ready_def)
  have e0: "phase (run delay [] (?T + 999)) = Complete"
    using advance_add [of delay "[]" 400 599 "completed ?T"]
    by (simp add: run_fields at completed_assets assets_ready_idle)
      (simp add: assets_ready_def completed_def)
  have e1: "phase (run delay [] (?T + 1000)) = Exit"
    using advance_add [of delay "[]" 400 600 "completed ?T"]
    by (simp add: run_fields at completed_assets assets_ready_exit) (simp add: exiting_def)
  have c0: "completions (run delay [] (?T + 1799)) = []"
    using advance_add [of delay "[]" 400 1399 "completed ?T"]
      advance_add [of delay "[]" 600 799 "assets_ready ?T"]
    by (simp add: run_fields at completed_assets assets_ready_exit exiting_idle)
      (simp add: exiting_def assets_ready_def completed_def)
  have c1: "\<forall>t \<ge> ?T + 1800. completions (run delay [] t) = [?T + 1800]"
  proof (intro allI impI)
    fix t assume "?T + 1800 \<le> t"
    then have t: "t = ?T + (1800 + (t - (?T + 1800)))" by simp
    show "completions (run delay [] t) = [?T + 1800]"
      by (subst t) (simp only: run_fields at completions_after)
  qed
  from stages ticks p0 p1 a0 a1 e0 e1 c0 c1 show ?thesis by blast
qed

lemma stage_start_numeral:
  "stage_start delay (numeral n) =
     stage_start delay (pred_numeral n) + 16 * stage_ticks (pred_numeral n) +
       delay (pred_numeral n)"
  by (simp add: numeral_eq_Suc)

lemma stage_start_50:
  "stage_start (\<lambda>_. 50) 6 = 2648" "stage_start (\<lambda>_. 50) (Suc 0) = 558"
  "stage_start (\<lambda>_. 50) 4 = 1924"
  by (simp_all add: stage_start_numeral stage_ticks_table)

lemma stage_acc_numeral:
  "stage_acc k (numeral n) = dadd (stage_acc k (pred_numeral n)) (stage_increment k)"
  by (simp add: numeral_eq_Suc stage_acc_Suc)

lemma stage_acc_values:
  "stage_acc (Suc 0) (Suc 0) = 4447304632028365 / 281474976710656"
  "stage_acc 4 25 = 3166593487994875 / 35184372088832"
  by (simp_all add: stage_acc_numeral stage_acc_Suc stage_acc_0 stage_table stage_increments
      double_eval power_int_numeral power_int_numeral_neg_numeral)

text \<open>
  The witness draws 50 ms every time: the second stage starts at 558 ms with 15, its
  first tick gives the double nearest to 15.8 (displayed 15), its 25th tick reaches 35;
  the fifth stage starts at 1924 ms, its 25th tick gives a sum just below 90 (displayed
  89) and its 26th tick reaches 90; the phase becomes \<open>Complete\<close> at 2648 ms and the
  callback is called at 4448 ms.
\<close>

theorem preloader_undisturbed_run_witness:
  "currentProgress (run (\<lambda>_. 50) [] 558) = 15 \<and>
   currentProgress (run (\<lambda>_. 50) [] 574) = 4447304632028365 / 281474976710656 \<and>
   progress (run (\<lambda>_. 50) [] 574) = 15 \<and>
   currentProgress (run (\<lambda>_. 50) [] 958) = 35 \<and>
   progress (run (\<lambda>_. 50) [] 958) = 35 \<and>
   currentProgress (run (\<lambda>_. 50) [] 2324) = 3166593487994875 / 35184372088832 \<and>
   progress (run (\<lambda>_. 50) [] 2324) = 89 \<and>
   progress (run (\<lambda>_. 50) [] 2340) = 90 \<and>
   phase (run (\<lambda>_. 50) [] 2647) = Loading \<and>
   phase (run (\<lambda>_. 50) [] 2648) = Complete \<and>
   \<not> assetsReady (run (\<lambda>_. 50) [] 3047) \<and>
   assetsReady (run (\<lambda>_. 50) [] 3048) \<and>
   phase (run (\<lambda>_. 50) [] 3647) = Complete \<and>
   phase (run (\<lambda>_. 50) [] 3648) = Exit \<and>
   completions (run (\<lambda>_. 50) [] 4447) = [] \<and>
   completions (run (\<lambda>_. 50) [] 4448) = [4448] \<and>
   completions (run (\<lambda>_. 50) [] 20000) = [4448]"
proof -
  have delays: "\<forall>k<6. (50::nat) \<le> (\<lambda>_. 50) k \<and> (\<lambda>_. 50) k < (150::nat)" by simp
  note inst = preloader_undisturbed_run [OF delays, unfolded stage_start_50]
  have at: "currentProgress (run (\<lambda>_. 50) [] (stage_start (\<lambda>_. 50) k + 16 * j)) =
        (if j < stage_ticks k then stage_acc k j else stage_target k) \<and>
      progress (run (\<lambda>_. 50) [] (stage_start (\<lambda>_. 50) k + 16 * j)) =
        (if j < stage_ticks k then of_int \<lfloor>stage_acc k j\<rfloor> else stage_target k)"
    if "k < 6" "1 \<le> j" "j \<le> stage_ticks k" for k j
    using inst that by blast
  from inst have "currentProgress (run (\<lambda>_. 50) [] (stage_start (\<lambda>_. 50) (Suc 0))) =
      stage_prev (Suc 0)"
    by (elim conjE allE [of _ "Suc 0"]) simp
  then have s0: "currentProgress (run (\<lambda>_. 50) [] 558) = 15"
    by (simp add: stage_start_50 stage_table stage_ticks_table)
  have s1: "currentProgress (run (\<lambda>_. 50) [] 574) = 4447304632028365 / 281474976710656"
    "progress (run (\<lambda>_. 50) [] 574) = 15"
    using at [of "Suc 0" "Suc 0"]
    by (simp_all add: stage_start_50 stage_table stage_ticks_table stage_acc_values)
  have s2: "currentProgress (run (\<lambda>_. 50) [] 958) = 35"
    "progress (run (\<lambda>_. 50) [] 958) = 35"
    using at [of "Suc 0" 25]
    by (simp_all add: stage_start_50 stage_table stage_ticks_table)
  have s3: "currentProgress (run (\<lambda>_. 50) [] 2324) = 3166593487994875 / 35184372088832"
    "progress (run (\<lambda>_. 50) [] 2324) = 89"
    using at [of 4 25]
    by (simp_all add: stage_start_50 stage_table stage_ticks_table stage_acc_values)
  have s4: "progress (run (\<lambda>_. 50) [] 2340) = 90"
    using at [of 4 26]
    by (simp_all add: stage_start_50 stage_table stage_ticks_table)
  from inst have seq:
    "phase (run (\<lambda>_. 50) [] 2647) = Loading" "phase (run (\<lambda>_. 50) [] 2648) = Complete"
    "\<not> assetsReady (run (\<lambda>_. 50) [] 3047)" "assetsReady (run (\<lambda>_. 50) [] 3048)"
    "phase (run (\<lambda>_. 50) [] 3647) = Complete" "phase (run (\<lambda>_. 50) [] 3648) = Exit"
    "completions (run (\<lambda>_. 50) [] 4447) = []"
    by simp_all
  from inst have "\<forall>t\<ge>4448. completions (run (\<lambda>_. 50) [] t) = [4448]" by simp
  then have fin: "completions (run (\<lambda>_. 50) [] 4448) = [4448]"
    "completions (run (\<lambda>_. 50) [] 20000) = [4448]" by simp_all
  from s0 s1 s2 s3 s4 seq fin show ?thesis by simp
qed

subsection \<open>The preloader when outside events disturb the run\<close>

text \<open>
  Claim C1 (the completion callback fires exactly once in every run). The code breaks
  it. With delays of 50 ms the exit timer fires at 3648 ms and schedules the callback for
  4448 ms. A render of \<open>App\<close> at 3732 ms passes a new \<open>onComplete\<close>; the exit effect,
  which lists it as a dependency, runs again with \<open>assetsReady\<close> true and sets a second
  exit timer, due at 4332 ms, whose callback schedules the callback once more without
  looking at the phase (the fallback timer does look, line 405). The callback is called at
  4448 ms and again at 5132 ms, after the unmount at 4948 ms.
\<close>

theorem callback_fires_twice:
  "completions (run (\<lambda>_. 50) [(3732, ParentRender)] 3731) = [] \<and>
   phase (run (\<lambda>_. 50) [(3732, ParentRender)] 3731) = Exit \<and>
   completeTimers (run (\<lambda>_. 50) [(3732, ParentRender)] 3731) = [4448] \<and>
   exitTimer (run (\<lambda>_. 50) [(3732, ParentRender)] 3731) = None \<and>
   exitTimer (run (\<lambda>_. 50) [(3732, ParentRender)] 3732) = Some 4332 \<and>
   completeTimers (run (\<lambda>_. 50) [(3732, ParentRender)] 4332) = [4448, 5132] \<and>
   completions (run (\<lambda>_. 50) [(3732, ParentRender)] 4447) = [] \<and>
   completions (run (\<lambda>_. 50) [(3732, ParentRender)] 4448) = [4448] \<and>
   mounted (run (\<lambda>_. 50) [(3732, ParentRender)] 4947) \<and>
   \<not> mounted (run (\<lambda>_. 50) [(3732, ParentRender)] 4948) \<and>
   completions (run (\<lambda>_. 50) [(3732, ParentRender)] 5131) = [4448] \<and>
   completions (run (\<lambda>_. 50) [(3732, ParentRender)] 5132) = [4448, 5132] \<and>
   completions (run (\<lambda>_. 50) [(3732, ParentRender)] 20000) = [4448, 5132]"
proof -
  let ?r = "run (\<lambda>_. 50) [(3732, ParentRender)]"
  let ?s = "\<lparr>now = 3731, mounted = True, loaded = False, progress = 100, phase = Exit,
    assetsReady = True, showSkip = True, currentStage = 6, currentProgress = 100,
    skipTimer = None, timeoutFallback = Some (13648, Exit), startTimer = None,
    interval = None, stageTimer = None, assetsTimer = None, exitTimer = None,
    completeTimers = [4448], unmountTimer = None, completions = []\<rparr>"
  have s: "?r 3731 = ?s"
    by (simp add: advance_next eval_defs)
  have later: "?r (3731 + n) = advance (\<lambda>_. 50) [(3732, ParentRender)] n ?s" for n
    by (simp only: run_add s)
  have "?r 3732 = advance (\<lambda>_. 50) [(3732, ParentRender)] 1 ?s"
    "?r 4332 = advance (\<lambda>_. 50) [(3732, ParentRender)] 601 ?s"
    "?r 4447 = advance (\<lambda>_. 50) [(3732, ParentRender)] 716 ?s"
    "?r 4448 = advance (\<lambda>_. 50) [(3732, ParentRender)] 717 ?s"
    "?r 4947 = advance (\<lambda>_. 50) [(3732, ParentRender)] 1216 ?s"
    "?r 4948 = advance (\<lambda>_. 50) [(3732, ParentRender)] 1217 ?s"
    "?r 5131 = advance (\<lambda>_. 50) [(3732, ParentRender)] 1400 ?s"
    "?r 5132 = advance (\<lambda>_. 50) [(3732, ParentRender)] 1401 ?s"
    "?r 20000 = advance (\<lambda>_. 50) [(3732, ParentRender)] 16269 ?s"
    using later [of 1] later [of 601] later [of 716] later [of 717] later [of 1216]
      later [of 1217] later [of 1400] later [of 1401] later [of 16269]
    by simp_all
  then show ?thesis
    by (simp add: s advance_next step_defs)
qed

text \<open>
  Claim C4 (the watchdog is an absolute 10 second timer, independent of stage progress,
  that forces \<open>Exit\<close> and the callback when the preloader has not exited by then). The
  code breaks it. The fallback effect lists \<open>phase\<close> and \<open>onComplete\<close> as dependencies,
  so the timer is cleared and set anew, 10000 ms ahead, at every change of phase (at
  2648 ms in the undisturbed run, to 12648 ms) and at every render of \<open>App\<close>. When \<open>App\<close>
  renders every 500 ms from 3500 ms on, the exit timer and the fallback timer are both
  set anew each time: at 10000 ms and at 10350 ms the phase is still \<open>Complete\<close>, no
  callback is pending and none has been called.
\<close>

theorem watchdog_restarted:
  "timeoutFallback (run (\<lambda>_. 50) [] 2647) = Some (10000, Loading) \<and>
   timeoutFallback (run (\<lambda>_. 50) [] 2648) = Some (12648, Complete) \<and>
   phase (run (\<lambda>_. 50) app_renders 9999) = Complete \<and>
   timeoutFallback (run (\<lambda>_. 50) app_renders 9999) = Some (19500, Complete) \<and>
   phase (run (\<lambda>_. 50) app_renders 10000) = Complete \<and>
   phase (run (\<lambda>_. 50) app_renders 10350) = Complete \<and>
   completeTimers (run (\<lambda>_. 50) app_renders 10350) = [] \<and>
   completions (run (\<lambda>_. 50) app_renders 10350) = []"
proof -
  let ?s = "\<lparr>now = 2647, mounted = True, loaded = False, progress = 100, phase = Loading,
    assetsReady = False, showSkip = True, currentStage = 6, currentProgress = 100,
    skipTimer = None, timeoutFallback = Some (10000, Loading), startTimer = None,
    interval = None, stageTimer = Some 2648, assetsTimer = None, exitTimer = None,
    completeTimers = [], unmountTimer = None, completions = []\<rparr>"
  have s: "run (\<lambda>_. 50) [] 2647 = ?s"
    by (simp add: advance_next eval_defs)
  have r: "run (\<lambda>_. 50) app_renders 2647 = ?s"
    by (simp add: advance_next eval_defs app_renders_def)
  have "run (\<lambda>_. 50) [] 2648 = advance (\<lambda>_. 50) [] 1 ?s"
    using run_add [of "\<lambda>_. 50" "[]" 2647 1] by (simp add: s)
  moreover have "run (\<lambda>_. 50) app_renders 9999 = advance (\<lambda>_. 50) app_renders 7352 ?s"
    "run (\<lambda>_. 50) app_renders 10000 = advance (\<lambda>_. 50) app_renders 7353 ?s"
    "run (\<lambda>_. 50) app_renders 10350 = advance (\<lambda>_. 50) app_renders 7703 ?s"
    using run_add [of "\<lambda>_. 50" app_renders 2647 7352]
      run_add [of "\<lambda>_. 50" app_renders 2647 7353]
      run_add [of "\<lambda>_. 50" app_renders 2647 7703]
    by (simp_all add: r)
  ultimately show ?thesis
    by (simp add: s advance_next step_defs app_renders_def)
qed

subsection \<open>Visibility triggers\<close>

lemma flags_not_Nil [simp]: "flags hook b xs \<noteq> []"
  by (cases xs) simp_all

lemma length_flags [simp]: "length (flags hook b xs) = Suc (length xs)"
  by (induction xs arbitrary: b) simp_all

lemma hd_flags [simp]: "hd (flags hook b xs) = b"
  by (cases xs) simp_all

lemma rises_Cons: "bs \<noteq> [] \<Longrightarrow> rises (a # bs) = (if \<not> a \<and> hd bs then 1 else 0) + rises bs"
  by (cases bs) simp_all

lemma falls_Cons: "bs \<noteq> [] \<Longrightarrow> falls (a # bs) = (if a \<and> \<not> hd bs then 1 else 0) + falls bs"
  by (cases bs) simp_all

lemma useInView_once:
  "useInView True amount True x = True"
  "useInView True amount False x = crosses amount x"
  by (simp_all add: useInView_def)

lemma flags_once_True:
  "flags (useInView True amount) True xs = replicate (Suc (length xs)) True"
  by (induction xs) (simp_all add: useInView_once)

lemma rises_replicate: "rises (replicate n True) = 0"
proof (induction n)
  case 0
  show ?case by simp
next
  case (Suc n)
  then show ?case by (cases n) simp_all
qed

lemma falls_replicate: "falls (replicate n True) = 0"
proof (induction n)
  case 0
  show ?case by simp
next
  case (Suc n)
  then show ?case by (cases n) simp_all
qed

lemma once_rises:
  "rises (flags (useInView True amount) False xs) =
     (if \<exists>x \<in> set xs. crosses amount x then 1 else 0)"
proof (induction xs)
  case Nil
  show ?case by simp
next
  case (Cons x xs)
  show ?case
  proof (cases "crosses amount x")
    case True
    then show ?thesis
      by (simp add: rises_Cons useInView_once flags_once_True rises_replicate
          del: replicate.simps)
  next
    case False
    then show ?thesis using Cons by (simp add: rises_Cons useInView_once)
  qed
qed

lemma once_falls: "falls (flags (useInView True amount) b xs) = 0"
proof (induction xs arbitrary: b)
  case Nil
  show ?case by simp
next
  case (Cons x xs)
  show ?case using Cons [of "useInView True amount b x"]
    by (cases b) (simp_all add: falls_Cons useInView_once)
qed

lemma once_stays:
  assumes "i \<le> j" and "j < length (flags (useInView True amount) b xs)"
    and "flags (useInView True amount) b xs ! i"
  shows "flags (useInView True amount) b xs ! j"
  using assms
proof (induction xs arbitrary: b i j)
  case Nil
  then show ?case by simp
next
  case (Cons x xs)
  show ?case
  proof (cases i)
    case 0
    with Cons.prems have b: b by simp
    have "flags (useInView True amount) True (x # xs) =
        replicate (Suc (length (x # xs))) True"
      by (rule flags_once_True)
    moreover have "j < Suc (length (x # xs))"
      using Cons.prems(2) by simp
    ultimately show ?thesis using b by (simp only: nth_replicate)
  next
    case (Suc i')
    with Cons.prems obtain j' where j: "j = Suc j'" by (cases j) simp_all
    show ?thesis using Cons.IH [of i' j'] Cons.prems Suc j by simp
  qed
qed

text \<open>
  Claim C6. A visibility trigger called with \<open>once: true\<close>, as every call in the source
  is, is one-shot, whatever its threshold and whatever the element is observed to do:
  the flag is never reset, it turns true exactly once if the element ever crosses the
  threshold (and never otherwise), and once true it is true at every later render; so the
  reveal starts exactly once.
\<close>

theorem visibility_trigger_one_shot:
  "falls (flags (useInView True amount) False obs) = 0 \<and>
   rises (flags (useInView True amount) False obs) =
     (if \<exists>x \<in> set obs. crosses amount x then 1 else 0) \<and>
   (\<forall>i j. i \<le> j \<and> j < length (flags (useInView True amount) False obs) \<and>
      flags (useInView True amount) False obs ! i \<longrightarrow>
      flags (useInView True amount) False obs ! j)"
  using once_falls once_rises once_stays by blast

text \<open>
  The witness scrolls an element into view, out, and back in: for the manifesto section
  (threshold 0.2) and for a division card (default threshold).
\<close>

theorem visibility_trigger_one_shot_witness:
  "flags manifesto_inView False [0, 1 / 2, 0, 1 / 2] = [False, False, True, True, True] \<and>
   rises (flags manifesto_inView False [0, 1 / 2, 0, 1 / 2]) = 1 \<and>
   falls (flags manifesto_inView False [0, 1 / 2, 0, 1 / 2]) = 0 \<and>
   flags divisionCard_inView False [0, 1 / 10, 0] = [False, False, True, True] \<and>
   rises (flags divisionCard_inView False [0, 1 / 10, 0]) = 1 \<and>
   falls (flags divisionCard_inView False [0, 1 / 10, 0]) = 0"
proof -
  have a: "flags manifesto_inView False [0, 1 / 2, 0, 1 / 2] = [False, False, True, True, True]"
    and b: "flags divisionCard_inView False [0, 1 / 10, 0] = [False, False, True, True]"
    by (simp_all add: manifesto_inView_def divisionCard_inView_def useInView_def crosses_def)
  have ex: "\<exists>x \<in> set [0, 1 / 2, 0, 1 / 2]. crosses (Some 0.2) x"
    "\<exists>x \<in> set [0, 1 / 10, 0]. crosses None x"
    by (simp_all add: crosses_def)
  note m = visibility_trigger_one_shot [of "Some 0.2" "[0, 1 / 2, 0, 1 / 2]",
      folded manifesto_inView_def]
  note d = visibility_trigger_one_shot [of None "[0, 1 / 10, 0]", folded divisionCard_inView_def]
  from m have "rises (flags manifesto_inView False [0, 1 / 2, 0, 1 / 2]) =
      (if \<exists>x \<in> set [0, 1 / 2, 0, 1 / 2]. crosses (Some 0.2) x then 1 else 0)"
    and mf: "falls (flags manifesto_inView False [0, 1 / 2, 0, 1 / 2]) = 0"
    by blast+
  with ex(1) have mr: "rises (flags manifesto_inView False [0, 1 / 2, 0, 1 / 2]) = 1"
    by (simp only: if_True)
  from d have "rises (flags divisionCard_inView False [0, 1 / 10, 0]) =
      (if \<exists>x \<in> set [0, 1 / 10, 0]. crosses None x then 1 else 0)"
    and df: "falls (flags divisionCard_inView False [0, 1 / 10, 0]) = 0"
    by blast+
  with ex(2) have dr: "rises (flags divisionCard_inView False [0, 1 / 10, 0]) = 1"
    by (simp only: if_True)
  from a b mr mf dr df show ?thesis by blast
qed

end
